theory Spec2Isabelle
  imports Main "HOL-Library.Char_ord" "HOL-Library.List_Lexorder"
begin

section \<open>Strings\<close>

text \<open>
  A Python \<open>str\<close> is modelled as a \<open>string\<close>: one \<open>char\<close> stands for one code point,
  so the model covers the code points U+0000 to U+00FF and \<open>length\<close> is Python's
  \<open>len\<close>.
\<close>

definition NL :: char where
  "NL = CHR 0x0A"

text \<open>\<open>str.isspace\<close> on one code point below U+0100.\<close>

definition isspace :: "char \<Rightarrow> bool" where
  "isspace c = (c \<in> set [CHR 0x09, CHR 0x0A, CHR 0x0B, CHR 0x0C, CHR 0x0D,
                          CHR 0x1C, CHR 0x1D, CHR 0x1E, CHR 0x1F, CHR 0x20,
                          CHR 0x85, CHR 0xA0])"

text \<open>\<open>s.lstrip()\<close>, \<open>s.rstrip()\<close> and \<open>s.strip()\<close> with no argument.\<close>

definition lstrip :: "string \<Rightarrow> string" where
  "lstrip s = dropWhile isspace s"

definition rstrip :: "string \<Rightarrow> string" where
  "rstrip s = rev (dropWhile isspace (rev s))"

definition strip :: "string \<Rightarrow> string" where
  "strip s = rstrip (lstrip s)"

text \<open>\<open>sep.join(parts)\<close>.\<close>

fun join :: "string \<Rightarrow> string list \<Rightarrow> string" where
  "join sep [] = []"
| "join sep [p] = p"
| "join sep (p # q # ps) = p @ sep @ join sep (q # ps)"

section \<open>Chunker\<close>

text \<open>
  The dictionary under \<open>metadata\<close> always has the four keys \<open>source\<close>, \<open>url\<close>,
  \<open>title\<close> and \<open>section_path\<close>; the dataclass \<open>Chunk\<close> has the fields \<open>chunk_id\<close>,
  \<open>text\<close> and \<open>metadata\<close>.
\<close>

record metadata =
  meta_source :: string
  meta_url :: string
  meta_title :: string
  meta_section_path :: string

record chunk =
  chunk_id :: string
  chunk_text :: string
  chunk_metadata :: metadata

text \<open>\<open>approx_tokens\<close>: \<open>max(1, len(s) // 4)\<close>.\<close>

definition approx_tokens :: "string \<Rightarrow> int" where
  "approx_tokens s = max 1 (int (length s) div 4)"

text \<open>
  The local variables of \<open>chunk_sections\<close> that its loop and the nested \<open>flush\<close> update.
\<close>

record chunker =
  chunks :: "chunk list"
  buf :: string
  buf_path :: "string list"

text \<open>
  The nested function \<open>flush\<close>. It closes over \<open>url\<close>, \<open>title\<close>, \<open>source\<close> and the list
  \<open>chunks\<close>, which it appends to; here it takes the list and returns it. The parameter
  \<open>sha1\<close> stands for the module's \<open>sha1\<close>, the hex digest that \<open>hashlib\<close> computes of the
  UTF-8 encoding of its argument.
\<close>

definition flush ::
  "(string \<Rightarrow> string) \<Rightarrow> string \<Rightarrow> string \<Rightarrow> string \<Rightarrow>
   chunk list \<Rightarrow> string \<Rightarrow> string list \<Rightarrow> chunk list" where
  "flush sha1 url title source cs buf_text section_path =
     (let buf_text' = strip buf_text in
      if buf_text' = [] then cs
      else cs @ [\<lparr>chunk_id = take 16 (sha1 (url @ [NL] @ buf_text')),
                  chunk_text = buf_text',
                  chunk_metadata =
                    \<lparr>meta_source = source, meta_url = url, meta_title = title,
                     meta_section_path = join '' > '' (filter (\<lambda>p. p \<noteq> []) section_path)\<rparr>\<rparr>])"

text \<open>One iteration of the \<open>for heading, sec in sections\<close> loop.\<close>

definition chunk_step ::
  "(string \<Rightarrow> string) \<Rightarrow> string \<Rightarrow> string \<Rightarrow> string \<Rightarrow> int \<Rightarrow> int \<Rightarrow>
   chunker \<Rightarrow> string \<times> string \<Rightarrow> chunker" where
  "chunk_step sha1 url title source min_tok max_tok st hs =
     (let heading = fst hs; sec = snd hs;
          sec_tok = approx_tokens sec;
          section_path = (if title \<noteq> [] then [title] else []) @ (if heading \<noteq> [] then [heading] else [])
      in
      if buf st = [] then st\<lparr>buf := sec, buf_path := section_path\<rparr>
      else
        let st1 =
          (if approx_tokens (buf st) + sec_tok > max_tok
           then st\<lparr>chunks := flush sha1 url title source (chunks st) (buf st) (buf_path st),
                   buf := sec, buf_path := section_path\<rparr>
           else st\<lparr>buf := strip (buf st @ [NL, NL] @ sec),
                   buf_path := (if buf_path st \<noteq> [] then buf_path st else section_path)\<rparr>)
        in
        if approx_tokens (buf st1) \<ge> min_tok
        then st1\<lparr>chunks := flush sha1 url title source (chunks st1) (buf st1) (buf_path st1),
                 buf := [], buf_path := []\<rparr>
        else st1)"

definition chunk_sections ::
  "(string \<Rightarrow> string) \<Rightarrow> (string \<times> string) list \<Rightarrow> string \<Rightarrow> string \<Rightarrow> string \<Rightarrow>
   int \<Rightarrow> int \<Rightarrow> chunk list" where
  "chunk_sections sha1 sections url title source min_tok max_tok =
     (let st = foldl (chunk_step sha1 url title source min_tok max_tok)
                     \<lparr>chunks = [], buf = [], buf_path = []\<rparr> sections
      in if buf st \<noteq> [] then flush sha1 url title source (chunks st) (buf st) (buf_path st)
         else chunks st)"

subsection \<open>The greedy buffer, as the specification words it\<close>

text \<open>
  A section as the Section Splitter produces it: its text is trimmed and not empty.
\<close>

definition trimmed :: "string \<Rightarrow> bool" where
  "trimmed s = (strip s = s)"

definition is_section :: "string \<times> string \<Rightarrow> bool" where
  "is_section hs = (trimmed (snd hs) \<and> snd hs \<noteq> [])"

text \<open>
  The section path \<open>[title?, heading?]\<close> of a section, and the passage that a flush of a
  buffer emits (none when the trimmed buffer is empty).
\<close>

definition path_of :: "string \<Rightarrow> string \<Rightarrow> string list" where
  "path_of title heading =
     (if title = [] then [] else [title]) @ (if heading = [] then [] else [heading])"

definition passage ::
  "(string \<Rightarrow> string) \<Rightarrow> string \<Rightarrow> string \<Rightarrow> string \<Rightarrow> string \<Rightarrow> string list \<Rightarrow>
   chunk list" where
  "passage sha1 url title source b bpath = flush sha1 url title source [] b bpath"

text \<open>
  The algorithm of the specification, section by section: \<open>b\<close> is the buffer and \<open>bpath\<close>
  its section path; the result is the list of the passages emitted from here on.
\<close>

fun greedy ::
  "(string \<Rightarrow> string) \<Rightarrow> string \<Rightarrow> string \<Rightarrow> string \<Rightarrow> int \<Rightarrow> int \<Rightarrow>
   string \<Rightarrow> string list \<Rightarrow> (string \<times> string) list \<Rightarrow> chunk list" where
  "greedy sha1 url title source minTokens maxTokens b bpath [] =
     (if b = [] then [] else passage sha1 url title source b bpath)"
| "greedy sha1 url title source minTokens maxTokens b bpath ((heading, sec) # rest) =
     (if b = [] then
        greedy sha1 url title source minTokens maxTokens sec (path_of title heading) rest
      else if approx_tokens b + approx_tokens sec > maxTokens then
        passage sha1 url title source b bpath @
        (if approx_tokens sec \<ge> minTokens
         then passage sha1 url title source sec (path_of title heading) @
              greedy sha1 url title source minTokens maxTokens [] [] rest
         else greedy sha1 url title source minTokens maxTokens sec (path_of title heading) rest)
      else
        (if approx_tokens (b @ [NL, NL] @ sec) \<ge> minTokens
         then passage sha1 url title source (b @ [NL, NL] @ sec)
                (if bpath = [] then path_of title heading else bpath) @
              greedy sha1 url title source minTokens maxTokens [] [] rest
         else greedy sha1 url title source minTokens maxTokens (b @ [NL, NL] @ sec)
                (if bpath = [] then path_of title heading else bpath) rest))"

text \<open>
  What every emitted passage must satisfy: its id is the first 16 characters of the digest
  of the url, a newline and its text, and its text is trimmed and not empty.
\<close>

definition id_ok :: "(string \<Rightarrow> string) \<Rightarrow> string \<Rightarrow> chunk \<Rightarrow> bool" where
  "id_ok sha1 url c =
     (chunk_id c = take 16 (sha1 (url @ [NL] @ chunk_text c)) \<and>
      trimmed (chunk_text c) \<and> chunk_text c \<noteq> [])"

section \<open>URL Normalizer and Scope Filter\<close>

text \<open>
  \<open>norm_url\<close>, \<open>same_scope\<close> and \<open>keep_url\<close> call \<open>urlparse\<close> and \<open>geturl\<close> of the standard
  library's \<open>urllib.parse\<close>. The definitions below follow that module as CPython 3.11.10
  has it, function by function, for the calls the program makes (\<open>str\<close> arguments, no
  default scheme, fragments allowed). \<open>_checknetloc\<close> raises nothing on code points below
  U+0100 and is left out.
\<close>

record parse_result =
  scheme :: string
  netloc :: string
  path :: string
  params :: string
  query :: string
  fragment :: string

definition uses_netloc :: "string list" where
  "uses_netloc = ['''', ''ftp'', ''http'', ''gopher'', ''nntp'', ''telnet'',
                  ''imap'', ''wais'', ''file'', ''mms'', ''https'', ''shttp'',
                  ''snews'', ''prospero'', ''rtsp'', ''rtsps'', ''rtspu'', ''rsync'',
                  ''svn'', ''svn+ssh'', ''sftp'', ''nfs'', ''git'', ''git+ssh'',
                  ''ws'', ''wss'']"

definition uses_params :: "string list" where
  "uses_params = ['''', ''ftp'', ''hdl'', ''prospero'', ''http'', ''imap'',
                  ''https'', ''shttp'', ''rtsp'', ''rtsps'', ''rtspu'', ''sip'',
                  ''sips'', ''mms'', ''sftp'', ''tel'']"

definition ascii_upper :: "char \<Rightarrow> bool" where
  "ascii_upper c = (65 \<le> (of_char c :: nat) \<and> (of_char c :: nat) \<le> 90)"

definition ascii_lower :: "char \<Rightarrow> bool" where
  "ascii_lower c = (97 \<le> (of_char c :: nat) \<and> (of_char c :: nat) \<le> 122)"

definition ascii_digit :: "char \<Rightarrow> bool" where
  "ascii_digit c = (48 \<le> (of_char c :: nat) \<and> (of_char c :: nat) \<le> 57)"

text \<open>\<open>c in scheme_chars\<close>: letters, digits, \<open>+\<close>, \<open>-\<close> and \<open>.\<close>.\<close>

definition scheme_char :: "char \<Rightarrow> bool" where
  "scheme_char c =
     (ascii_lower c \<or> ascii_upper c \<or> ascii_digit c \<or>
      c = CHR ''+'' \<or> c = CHR ''-'' \<or> c = CHR ''.'')"

text \<open>\<open>c in _WHATWG_C0_CONTROL_OR_SPACE\<close> and \<open>c in _UNSAFE_URL_BYTES_TO_REMOVE\<close>.\<close>

definition c0_control_or_space :: "char \<Rightarrow> bool" where
  "c0_control_or_space c = ((of_char c :: nat) \<le> 32)"

definition unsafe_url_byte :: "char \<Rightarrow> bool" where
  "unsafe_url_byte c = (c = CHR 0x09 \<or> c = CHR 0x0D \<or> c = CHR 0x0A)"

text \<open>\<open>s.lower()\<close> on a string of scheme characters.\<close>

definition lower_char :: "char \<Rightarrow> char" where
  "lower_char c = (if ascii_upper c then char_of ((of_char c :: nat) + 32) else c)"

text \<open>
  \<open>s.split(c, 1)\<close> for a \<open>c\<close> that occurs in \<open>s\<close>: the text before the first \<open>c\<close> and the
  text after it.
\<close>

definition before :: "char \<Rightarrow> string \<Rightarrow> string" where
  "before c s = takeWhile (\<lambda>x. x \<noteq> c) s"

definition after :: "char \<Rightarrow> string \<Rightarrow> string" where
  "after c s = drop 1 (dropWhile (\<lambda>x. x \<noteq> c) s)"

text \<open>
  The scheme: \<open>i = url.find(':')\<close>; if \<open>i > 0\<close>, \<open>url[0]\<close> is an ASCII letter and every
  character of \<open>url[:i]\<close> is a scheme character, the scheme is \<open>url[:i].lower()\<close> and the
  rest \<open>url[i+1:]\<close>; else the scheme is empty.
\<close>

definition split_scheme :: "string \<Rightarrow> string \<times> string" where
  "split_scheme url =
     (if CHR '':'' \<in> set url \<and> before CHR '':'' url \<noteq> [] \<and>
         (ascii_lower (hd url) \<or> ascii_upper (hd url)) \<and>
         list_all scheme_char (before CHR '':'' url)
      then (map lower_char (before CHR '':'' url), after CHR '':'' url)
      else ([], url))"

text \<open>
  \<open>_splitnetloc(url, 2)\<close>: the network location runs from index 2 to the first \<open>/\<close>, \<open>?\<close>
  or \<open>#\<close> at or after index 2, or to the end.
\<close>

definition netloc_delim :: "char \<Rightarrow> bool" where
  "netloc_delim c = (c = CHR ''/'' \<or> c = CHR ''?'' \<or> c = CHR ''#'')"

definition splitnetloc :: "string \<Rightarrow> string \<times> string" where
  "splitnetloc url =
     (takeWhile (\<lambda>c. \<not> netloc_delim c) (drop 2 url),
      dropWhile (\<lambda>c. \<not> netloc_delim c) (drop 2 url))"

text \<open>
  The checks of a network location with brackets. \<open>bracketed_host\<close> is
  \<open>netloc.partition('[')[2].partition(']')[0]\<close>; \<open>host_ok\<close> stands for
  \<open>_check_bracketed_host\<close> not raising (an IPv6 or IPvFuture literal, by the module
  \<open>ipaddress\<close>), and is a parameter.
\<close>

definition bracketed_host :: "string \<Rightarrow> string" where
  "bracketed_host nl = before CHR '']'' (after CHR ''['' nl)"

definition netloc_ok :: "(string \<Rightarrow> bool) \<Rightarrow> string \<Rightarrow> bool" where
  "netloc_ok host_ok nl =
     (if (CHR ''['' \<in> set nl \<and> CHR '']'' \<notin> set nl) \<or>
         (CHR '']'' \<in> set nl \<and> CHR ''['' \<notin> set nl) then False
      else if CHR ''['' \<in> set nl \<and> CHR '']'' \<in> set nl then host_ok (bracketed_host nl)
      else True)"

text \<open>
  \<open>urlsplit(url)\<close>: \<open>None\<close> stands for the \<open>ValueError\<close> it raises; the result has no
  parameters yet.
\<close>

definition urlsplit :: "(string \<Rightarrow> bool) \<Rightarrow> string \<Rightarrow> parse_result option" where
  "urlsplit host_ok url0 =
     (let url = filter (\<lambda>c. \<not> unsafe_url_byte c) (dropWhile c0_control_or_space url0);
          sch = fst (split_scheme url);
          url = snd (split_scheme url);
          nl = (if take 2 url = ''//'' then fst (splitnetloc url) else []);
          url = (if take 2 url = ''//'' then snd (splitnetloc url) else url);
          frag = (if CHR ''#'' \<in> set url then after CHR ''#'' url else []);
          url = (if CHR ''#'' \<in> set url then before CHR ''#'' url else url);
          qry = (if CHR ''?'' \<in> set url then after CHR ''?'' url else []);
          url = (if CHR ''?'' \<in> set url then before CHR ''?'' url else url)
      in if netloc_ok host_ok nl
         then Some \<lparr>scheme = sch, netloc = nl, path = url, params = [], query = qry,
                     fragment = frag\<rparr>
         else None)"

text \<open>
  \<open>_splitparams(url)\<close> for a \<open>url\<close> with a \<open>;\<close>: the split is at the first \<open>;\<close> at or after
  the last \<open>/\<close> (none: no parameters), or at the first \<open>;\<close> when there is no \<open>/\<close>.
\<close>

definition last_segment :: "string \<Rightarrow> string" where
  "last_segment url = rev (takeWhile (\<lambda>c. c \<noteq> CHR ''/'') (rev url))"

definition splitparams :: "string \<Rightarrow> string \<times> string" where
  "splitparams url =
     (if CHR ''/'' \<in> set url then
        (if CHR '';'' \<in> set (last_segment url)
         then (take (length url - length (last_segment url)) url
                 @ before CHR '';'' (last_segment url),
               after CHR '';'' (last_segment url))
         else (url, []))
      else (before CHR '';'' url, after CHR '';'' url))"

definition urlparse :: "(string \<Rightarrow> bool) \<Rightarrow> string \<Rightarrow> parse_result option" where
  "urlparse host_ok url =
     (case urlsplit host_ok url of
        None \<Rightarrow> None
      | Some r \<Rightarrow>
          if scheme r \<in> set uses_params \<and> CHR '';'' \<in> set (path r)
          then Some (r\<lparr>path := fst (splitparams (path r)), params := snd (splitparams (path r))\<rparr>)
          else Some r)"

text \<open>\<open>urlunsplit\<close> on the five components, and \<open>urlunparse\<close>, which \<open>geturl()\<close> calls.\<close>

definition urlunsplit :: "string \<Rightarrow> string \<Rightarrow> string \<Rightarrow> string \<Rightarrow> string \<Rightarrow> string" where
  "urlunsplit sch nl url qry frag =
     (let url = (if nl \<noteq> [] \<or> (sch \<noteq> [] \<and> sch \<in> set uses_netloc) \<or> take 2 url = ''//''
                 then ''//'' @ nl @ (if url \<noteq> [] \<and> take 1 url \<noteq> ''/'' then ''/'' @ url else url)
                 else url);
          url = (if sch \<noteq> [] then sch @ '':'' @ url else url);
          url = (if qry \<noteq> [] then url @ ''?'' @ qry else url);
          url = (if frag \<noteq> [] then url @ ''#'' @ frag else url)
      in url)"

definition geturl :: "parse_result \<Rightarrow> string" where
  "geturl r =
     urlunsplit (scheme r) (netloc r)
       (if params r \<noteq> [] then path r @ '';'' @ params r else path r)
       (query r) (fragment r)"

text \<open>
  The program's three functions. \<open>None\<close> is the \<open>ValueError\<close> that \<open>urlparse\<close> raises and
  that none of them catches.
\<close>

definition norm_url :: "(string \<Rightarrow> bool) \<Rightarrow> string \<Rightarrow> string option" where
  "norm_url host_ok u =
     (case urlparse host_ok u of
        None \<Rightarrow> None
      | Some p \<Rightarrow> Some (geturl (p\<lparr>fragment := []\<rparr>)))"

definition same_scope :: "(string \<Rightarrow> bool) \<Rightarrow> string \<Rightarrow> string \<Rightarrow> bool option" where
  "same_scope host_ok url base =
     (case urlparse host_ok url of
        None \<Rightarrow> None
      | Some u \<Rightarrow>
          (case urlparse host_ok base of
             None \<Rightarrow> None
           | Some b \<Rightarrow> Some ((scheme u, netloc u) = (scheme b, netloc b))))"

text \<open>\<open>sub in s\<close> and \<open>s.startswith(p)\<close>.\<close>

fun startswith :: "string \<Rightarrow> string \<Rightarrow> bool" where
  "startswith s [] = True"
| "startswith [] (p # ps) = False"
| "startswith (c # cs) (p # ps) = (c = p \<and> startswith cs ps)"

fun contains :: "string \<Rightarrow> string \<Rightarrow> bool" where
  "contains [] sub = (sub = [])"
| "contains (c # cs) sub = (startswith (c # cs) sub \<or> contains cs sub)"

definition keep_url :: "(string \<Rightarrow> bool) \<Rightarrow> string \<Rightarrow> bool option" where
  "keep_url host_ok u =
     (case urlparse host_ok u of
        None \<Rightarrow> None
      | Some p \<Rightarrow>
          if contains (path p) ''Special:'' then Some False
          else if startswith (path p) ''/extensions/'' then Some False
          else Some True)"


text \<open>
  The first condition of \<open>urlunsplit\<close> is not the same in every CPython release. The definition
  above has \<open>netloc or (scheme and scheme in uses_netloc) or url[:2] == '//'\<close>, as 3.11.10 does.
  Older releases (3.12.3 for one) have
  \<open>netloc or (scheme and scheme in uses_netloc and url[:2] != '//')\<close> there, with the rest of
  the function unchanged; \<open>norm_url_old\<close> is \<open>norm_url\<close> run on such an interpreter.
\<close>

definition urlunsplit_old :: "string \<Rightarrow> string \<Rightarrow> string \<Rightarrow> string \<Rightarrow> string \<Rightarrow> string" where
  "urlunsplit_old sch nl url qry frag =
     (let url = (if nl \<noteq> [] \<or> (sch \<noteq> [] \<and> sch \<in> set uses_netloc \<and> take 2 url \<noteq> ''//'')
                 then ''//'' @ nl @ (if url \<noteq> [] \<and> take 1 url \<noteq> ''/'' then ''/'' @ url else url)
                 else url);
          url = (if sch \<noteq> [] then sch @ '':'' @ url else url);
          url = (if qry \<noteq> [] then url @ ''?'' @ qry else url);
          url = (if frag \<noteq> [] then url @ ''#'' @ frag else url)
      in url)"

definition geturl_old :: "parse_result \<Rightarrow> string" where
  "geturl_old r =
     urlunsplit_old (scheme r) (netloc r)
       (if params r \<noteq> [] then path r @ '';'' @ params r else path r)
       (query r) (fragment r)"

definition norm_url_old :: "(string \<Rightarrow> bool) \<Rightarrow> string \<Rightarrow> string option" where
  "norm_url_old host_ok u =
     (case urlparse host_ok u of
        None \<Rightarrow> None
      | Some p \<Rightarrow> Some (geturl_old (p\<lparr>fragment := []\<rparr>)))"

text \<open>
  Notions for the statements about \<open>norm_url\<close>. \<open>scheme_like url\<close>: \<open>urlsplit\<close> takes the text
  before the first colon of \<open>url\<close> for a scheme. \<open>full_path r\<close>: the path that \<open>urlunparse\<close>
  hands to \<open>urlunsplit\<close>, the parameters put back behind a semicolon. \<open>canon sch x\<close>: the path
  \<open>x\<close> split by \<open>urlparse\<close> under scheme \<open>sch\<close> and put back. \<open>normal_parts\<close>: what holds of the
  components \<open>urlparse\<close> returns, the fragment apart.
\<close>

definition scheme_like :: "string \<Rightarrow> bool" where
  "scheme_like url =
     (CHR '':'' \<in> set url \<and> before CHR '':'' url \<noteq> [] \<and>
      (ascii_lower (hd url) \<or> ascii_upper (hd url)) \<and>
      list_all scheme_char (before CHR '':'' url))"

definition full_path :: "parse_result \<Rightarrow> string" where
  "full_path r = (if params r \<noteq> [] then path r @ '';'' @ params r else path r)"

definition canon :: "string \<Rightarrow> string \<Rightarrow> string" where
  "canon sch x =
     (if sch \<in> set uses_params \<and> CHR '';'' \<in> set x
      then (if snd (splitparams x) \<noteq> [] then fst (splitparams x) @ '';'' @ snd (splitparams x)
            else fst (splitparams x))
      else x)"

definition normal_parts :: "(string \<Rightarrow> bool) \<Rightarrow> string \<Rightarrow> string \<Rightarrow> string \<Rightarrow> string \<Rightarrow> bool" where
  "normal_parts h sch nl p qry =
     ((\<forall>c \<in> set (sch @ nl @ p @ qry). \<not> unsafe_url_byte c) \<and>
      (sch = [] \<or> (ascii_lower (hd sch) \<and> list_all scheme_char sch \<and> map lower_char sch = sch)) \<and>
      (\<forall>c \<in> set nl. \<not> netloc_delim c) \<and> netloc_ok h nl \<and>
      CHR ''#'' \<notin> set p \<and> CHR ''?'' \<notin> set p \<and> CHR ''#'' \<notin> set qry \<and>
      (nl \<noteq> [] \<longrightarrow> p = [] \<or> hd p = CHR ''/'') \<and>
      (sch = [] \<and> nl = [] \<longrightarrow> p = [] \<or> (\<not> c0_control_or_space (hd p) \<and> \<not> scheme_like p)))"
section \<open>Section Splitter\<close>

text \<open>
  \<open>str.splitlines()\<close>: the line boundaries below U+0100 are \<open>\n\<close>, \<open>\r\<close>, \<open>\r\n\<close>,
  \<open>\v\<close>, \<open>\f\<close>, \<open>\x1c\<close>, \<open>\x1d\<close>, \<open>\x1e\<close> and \<open>\x85\<close>; the boundaries are not
  kept, and a final boundary opens no empty last line. \<open>cur\<close> is the line being read.
\<close>

definition CR :: char where
  "CR = CHR 0x0D"

definition linebreak :: "char \<Rightarrow> bool" where
  "linebreak c = (c \<in> set [CHR 0x0A, CHR 0x0B, CHR 0x0C, CHR 0x0D,
                            CHR 0x1C, CHR 0x1D, CHR 0x1E, CHR 0x85])"

fun splitlines_from :: "string \<Rightarrow> string \<Rightarrow> string list" where
  "splitlines_from cur [] = (if cur = [] then [] else [cur])"
| "splitlines_from cur [c] = (if linebreak c then [cur] else [cur @ [c]])"
| "splitlines_from cur (c # d # cs) =
     (if c = CR \<and> d = NL then cur # splitlines_from [] cs
      else if linebreak c then cur # splitlines_from [] (d # cs)
      else splitlines_from (cur @ [c]) (d # cs))"

definition splitlines :: "string \<Rightarrow> string list" where
  "splitlines s = splitlines_from [] s"

text \<open>
  \<open>heading_re.match(line)\<close> for \<open>heading_re = ^(#{1,6})\s+(.*)\s*$\<close>: \<open>None\<close> when the line
  does not match, else group 2. The line has no line boundary (it comes from
  \<open>splitlines\<close>), so \<open>.\<close> matches every character of it. \<open>#{1,6}\<close> must be followed by
  a whitespace character, so it takes all the leading \<open>#\<close>, of which there are 1 to 6;
  the greedy \<open>\s+\<close> takes the whitespace that follows, the greedy \<open>(.*)\<close> the rest of the
  line, and \<open>\s*\<close> nothing. \<open>\s\<close> in a \<open>str\<close> pattern is \<open>str.isspace\<close>.
\<close>

definition heading_re :: "string \<Rightarrow> string option" where
  "heading_re line =
     (let k = length (takeWhile (\<lambda>c. c = CHR ''#'') line); rest = drop k line in
      if 1 \<le> k \<and> k \<le> 6 \<and> rest \<noteq> [] \<and> isspace (hd rest)
      then Some (dropWhile isspace rest) else None)"

text \<open>The local variables of \<open>split_by_headings\<close> that its first loop updates.\<close>

record splitter =
  split_sections :: "(string \<times> string list) list"
  current_heading :: string
  current :: "string list"

definition split_step :: "splitter \<Rightarrow> string \<Rightarrow> splitter" where
  "split_step st line =
     (case heading_re line of
        Some g \<Rightarrow>
          \<lparr>split_sections =
             (if current st \<noteq> []
              then split_sections st @ [(current_heading st, current st)]
              else split_sections st),
           current_heading = strip g,
           current = [line]\<rparr>
      | None \<Rightarrow> st\<lparr>current := current st @ [line]\<rparr>)"

definition split_by_headings :: "string \<Rightarrow> (string \<times> string) list" where
  "split_by_headings markdown =
     (let st = foldl split_step
                 \<lparr>split_sections = [], current_heading = [], current = []\<rparr>
                 (splitlines markdown);
          secs = (if current st \<noteq> []
                  then split_sections st @ [(current_heading st, current st)]
                  else split_sections st)
      in map (\<lambda>hb. (fst hb, strip (join [NL] (snd hb))))
           (filter (\<lambda>hb. strip (join [NL] (snd hb)) \<noteq> []) secs))"

subsection \<open>The sections, as the specification words them\<close>

text \<open>
  A heading line: 1 to 6 marker characters \<open>#\<close>, then a whitespace character. Its heading
  is the trimmed remainder after the markers.
\<close>

definition heading_line :: "string \<Rightarrow> bool" where
  "heading_line l =
     (\<exists>k \<in> set [1, 2, 3, 4, 5, 6].
        take k l = replicate k CHR ''#'' \<and> k < length l \<and> isspace (l ! k))"

definition heading_text :: "string \<Rightarrow> string" where
  "heading_text l = strip (dropWhile (\<lambda>c. c = CHR ''#'') l)"

text \<open>
  Each heading line opens a section that holds it and the lines up to the next heading
  line; the lines before the first heading line are the preface, with empty heading.
\<close>

fun heading_sections :: "string list \<Rightarrow> (string \<times> string list) list" where
  "heading_sections [] = []"
| "heading_sections (l # ls) =
     (if heading_line l
      then (heading_text l, l # takeWhile (\<lambda>x. \<not> heading_line x) ls) # heading_sections ls
      else heading_sections ls)"

definition preface :: "string list \<Rightarrow> (string \<times> string list) list" where
  "preface ls =
     (let p = takeWhile (\<lambda>x. \<not> heading_line x) ls in if p = [] then [] else [([], p)])"

text \<open>
  The text of a section is its lines joined by newlines and trimmed; the sections whose
  text is empty are dropped.
\<close>

definition section_text :: "string list \<Rightarrow> string" where
  "section_text body = strip (join [NL] body)"

definition spec_sections :: "string list \<Rightarrow> (string \<times> string) list" where
  "spec_sections ls =
     filter (\<lambda>hs. snd hs \<noteq> [])
       (map (\<lambda>hb. (fst hb, section_text (snd hb))) (preface ls @ heading_sections ls))"

text \<open>The sections list after the \<open>if current:\<close> that follows the first loop.\<close>

definition close_current :: "splitter \<Rightarrow> (string \<times> string list) list" where
  "close_current st =
     (if current st \<noteq> [] then split_sections st @ [(current_heading st, current st)]
      else split_sections st)"

section \<open>Content Extractor\<close>

text \<open>
  The libraries that \<open>extract_main_markdown\<close> calls, as functions: \<open>short_title\<close> and
  \<open>summary\<close> are \<open>Document(html).short_title()\<close> and
  \<open>Document(html).summary(html_partial=True)\<close> of the readability extractor; \<open>parse\<close> is
  \<open>BeautifulSoup(s, "lxml")\<close>, \<open>render\<close> is \<open>str\<close> of a parsed tree or element,
  \<open>decompose tags e\<close> is \<open>e\<close> after \<open>t.decompose()\<close> for every \<open>t\<close> in \<open>e(tags)\<close>,
  \<open>select_one\<close> and \<open>body\<close> are \<open>full.select_one(selector)\<close> and \<open>full.body\<close> (\<open>None\<close>
  when there is no such element; an element is always truthy); \<open>md\<close> is
  \<open>markdownify(s, heading_style="ATX")\<close>.
\<close>

record 'dom html_libs =
  short_title :: "string \<Rightarrow> string option"
  summary :: "string \<Rightarrow> string"
  parse :: "string \<Rightarrow> 'dom"
  render :: "'dom \<Rightarrow> string"
  decompose :: "string list \<Rightarrow> 'dom \<Rightarrow> 'dom"
  select_one :: "string \<Rightarrow> 'dom \<Rightarrow> 'dom option"
  body :: "'dom \<Rightarrow> 'dom option"
  md :: "string \<Rightarrow> string"

text \<open>\<open>re.sub(r"\n{3,}", "\n\n", s)\<close>: a run of three or more newlines becomes two.\<close>

fun collapse_newlines :: "string \<Rightarrow> string" where
  "collapse_newlines (a # b # c # cs) =
     (if a = NL \<and> b = NL \<and> c = NL then collapse_newlines (b # c # cs)
      else a # collapse_newlines (b # c # cs))"
| "collapse_newlines cs = cs"

text \<open>Python's \<open>x or y\<close> on values that are \<open>None\<close> or truthy.\<close>

definition or_else :: "'a option \<Rightarrow> 'a option \<Rightarrow> 'a option" where
  "or_else x y = (case x of Some v \<Rightarrow> Some v | None \<Rightarrow> y)"

definition extract_main_markdown :: "'dom html_libs \<Rightarrow> string \<Rightarrow> string \<times> string" where
  "extract_main_markdown L html =
     (let title = strip (case short_title L html of None \<Rightarrow> [] | Some t \<Rightarrow> t);
          main_html = summary L html;
          soup = decompose L [''script'', ''style'', ''noscript''] (parse L main_html);
          clean_html = render L soup;
          markdown = strip (collapse_newlines (md L clean_html));
          markdown =
            (if int (length markdown) < 200 then
               (let full = parse L html;
                    main = or_else (select_one L ''#mw-content-text'' full)
                          (or_else (select_one L ''.mw-parser-output'' full)
                          (or_else (select_one L ''main'' full)
                                   (body L full)))
                in case main of
                     Some m \<Rightarrow>
                       strip (md L (render L
                         (decompose L [''script'', ''style'', ''noscript'', ''svg''] m)))
                   | None \<Rightarrow> markdown)
             else markdown)
      in (title, strip (collapse_newlines markdown)))"

subsection \<open>The two paths, as the specification words them\<close>

text \<open>
  The text that the heuristic extractor's fragment converts to: script, style and noscript
  removed, converted, blank lines collapsed, trimmed.
\<close>

definition heuristic_text :: "'dom html_libs \<Rightarrow> string \<Rightarrow> string" where
  "heuristic_text L html =
     strip (collapse_newlines (md L (render L
       (decompose L [''script'', ''style'', ''noscript''] (parse L (summary L html))))))"

text \<open>
  The container of the fallback, chosen in the original full HTML: the wiki main-content
  container, else the wiki parser-output container, else \<open>main\<close>, else the body.
\<close>

definition fallback_container :: "'dom html_libs \<Rightarrow> string \<Rightarrow> 'dom option" where
  "fallback_container L html =
     (let full = parse L html in
      if select_one L ''#mw-content-text'' full \<noteq> None
        then select_one L ''#mw-content-text'' full
      else if select_one L ''.mw-parser-output'' full \<noteq> None
        then select_one L ''.mw-parser-output'' full
      else if select_one L ''main'' full \<noteq> None
        then select_one L ''main'' full
      else body L full)"

text \<open>
  The text of the fallback: script, style, noscript and svg removed from the container,
  converted, trimmed, then blank lines collapsed and trimmed again.
\<close>

definition fallback_text :: "'dom html_libs \<Rightarrow> 'dom \<Rightarrow> string" where
  "fallback_text L m =
     strip (collapse_newlines (strip (md L (render L
       (decompose L [''script'', ''style'', ''noscript'', ''svg''] m)))))"

fun has_blank_run :: "string \<Rightarrow> bool" where
  "has_blank_run (a # b # c # cs) = ((a = NL \<and> b = NL \<and> c = NL) \<or> has_blank_run (b # c # cs))"
| "has_blank_run cs = False"

text \<open>
  Stand-ins for the libraries, to run the extractor on concrete pages: the parsed tree of
  a string is the string, nothing is removed or converted, the heuristic extractor
  returns the title \<open>T\<close> between spaces and the given fragment, and the only container a
  page has besides its body is a \<open>main\<close> element.
\<close>

definition stub_libs :: "string \<Rightarrow> string html_libs" where
  "stub_libs frag_html =
     \<lparr>short_title = (\<lambda>h. Some '' T ''), summary = (\<lambda>h. frag_html),
      parse = (\<lambda>s. s), render = (\<lambda>d. d), decompose = (\<lambda>tags d. d),
      select_one = (\<lambda>sel d. if sel = ''main'' then Some ''<main>all</main>'' else None),
      body = (\<lambda>d. Some d), md = (\<lambda>s. s)\<rparr>"

section \<open>Frontier Source: the sitemap strategy\<close>

text \<open>
  An \<open>httpx.Response\<close>, as far as the program reads it: \<open>status_code\<close>, the header
  \<open>content-type\<close> (\<open>None\<close> when the response has none) and \<open>text\<close>.
\<close>

record response =
  status_code :: int
  content_type :: "string option"
  body_text :: string

text \<open>The exceptions that reach the program: any that \<open>client.get\<close> raises, and the
  \<open>ValueError\<close> of \<open>urllib.parse\<close>.\<close>

datatype error = TransportError | ValueError

text \<open>
  The world outside the program, as functions: \<open>client_get\<close> is
  \<open>client.get(url, follow_redirects=True, timeout=30)\<close> (\<open>Inl\<close> when it raises);
  \<open>urljoin\<close> is \<open>urllib.parse.urljoin\<close> (\<open>None\<close> when it raises) and \<open>host_ok\<close> the check
  of a bracketed host in \<open>urlparse\<close>; \<open>xml_locs text\<close> is the list of
  \<open>loc.get_text(strip=True)\<close> for the \<open>loc\<close> elements of \<open>BeautifulSoup(text, "xml")\<close>
  and \<open>xml_find name text\<close> says whether \<open>find(name)\<close> finds an element in it;
  \<open>hrefs html\<close> is the list of \<open>a.get("href")\<close> for the elements that \<open>select("a[href]")\<close>
  returns in \<open>BeautifulSoup(html, "lxml")\<close>.
\<close>

record web =
  client_get :: "string \<Rightarrow> error + response"
  urljoin :: "string \<Rightarrow> string \<Rightarrow> string option"
  host_ok :: "string \<Rightarrow> bool"
  xml_locs :: "string \<Rightarrow> string list"
  xml_find :: "string \<Rightarrow> string \<Rightarrow> bool"
  hrefs :: "string \<Rightarrow> string list"

text \<open>\<open>r.headers.get("content-type", "")\<close>.\<close>

definition content_type_or_empty :: "response \<Rightarrow> string" where
  "content_type_or_empty r = (case content_type r of None \<Rightarrow> [] | Some ct \<Rightarrow> ct)"

text \<open>
  The inner loop \<open>for child in locs\<close> of \<open>try_fetch_sitemap\<close>, which extends \<open>urls\<close>.
\<close>

fun fetch_children :: "web \<Rightarrow> string list \<Rightarrow> string list \<Rightarrow> error + string list" where
  "fetch_children W [] urls = Inr urls"
| "fetch_children W (child # rest) urls =
     (case client_get W child of
        Inl e \<Rightarrow> Inl e
      | Inr cr \<Rightarrow>
          if status_code cr = 200
          then fetch_children W rest (urls @ xml_locs W (body_text cr))
          else fetch_children W rest urls)"

text \<open>
  The loop \<open>for sm in candidates\<close>; \<open>sorted(set(urls))\<close> is \<open>sort (remdups urls)\<close>, strings
  being ordered as Python orders them, code point by code point.
\<close>

fun try_candidates :: "web \<Rightarrow> string list \<Rightarrow> string list \<Rightarrow> error + string list" where
  "try_candidates W [] urls = Inr []"
| "try_candidates W (sm # rest) urls =
     (case client_get W sm of
        Inl e \<Rightarrow> Inl e
      | Inr r \<Rightarrow>
          if status_code r \<noteq> 200 \<or> \<not> contains (content_type_or_empty r) ''xml''
          then try_candidates W rest urls
          else
            let locs = xml_locs W (body_text r) in
            if xml_find W ''sitemapindex'' (body_text r) then
              (case fetch_children W locs urls of
                 Inl e \<Rightarrow> Inl e
               | Inr urls' \<Rightarrow> Inr (sort (remdups urls')))
            else if xml_find W ''urlset'' (body_text r) then Inr (sort (remdups locs))
            else try_candidates W rest urls)"

definition try_fetch_sitemap :: "web \<Rightarrow> string \<Rightarrow> error + string list" where
  "try_fetch_sitemap W base =
     (case urljoin W base ''/sitemap.xml'' of
        None \<Rightarrow> Inl ValueError
      | Some c1 \<Rightarrow>
          (case urljoin W base ''/sitemap_index.xml'' of
             None \<Rightarrow> Inl ValueError
           | Some c2 \<Rightarrow> try_candidates W [c1, c2] []))"

subsection \<open>The sitemap strategy, as the specification words it\<close>

text \<open>A response is usable when its status is 200 and its content type indicates XML.\<close>

definition usable :: "response \<Rightarrow> bool" where
  "usable r = (status_code r = 200 \<and> contains (content_type_or_empty r) ''xml'')"

text \<open>
  The \<open>loc\<close> entries that a child sitemap contributes: those of its document when it
  answers with status 200, none otherwise.
\<close>

definition child_locs :: "web \<Rightarrow> string \<Rightarrow> string list" where
  "child_locs W child =
     (case client_get W child of
        Inr cr \<Rightarrow> if status_code cr = 200 then xml_locs W (body_text cr) else []
      | Inl e \<Rightarrow> [])"

text \<open>
  The URLs of a usable document: for an index, the union of what its children
  contribute; for a urlset, its own entries; deduplicated and sorted.
\<close>

definition document_urls :: "web \<Rightarrow> string \<Rightarrow> string list" where
  "document_urls W doc =
     (if xml_find W ''sitemapindex'' doc
      then sorted_list_of_set (\<Union>child \<in> set (xml_locs W doc). set (child_locs W child))
      else sorted_list_of_set (set (xml_locs W doc)))"

definition is_sitemap :: "web \<Rightarrow> response \<Rightarrow> bool" where
  "is_sitemap W r =
     (usable r \<and> (xml_find W ''sitemapindex'' (body_text r) \<or> xml_find W ''urlset'' (body_text r)))"

text \<open>
  A stand-in for the world, to run the program on concrete sites: \<open>pages\<close> lists the
  responses by URL (any other URL answers 404), the URLs in \<open>down\<close> fail in transport,
  \<open>locs\<close> and \<open>links\<close> list the \<open>loc\<close> entries and the \<open>href\<close> values by document text,
  a document has the element \<open>name\<close> when its text starts with \<open><name\<close>, and every
  reference joined to a base is an absolute path on the host \<open>http://h\<close>.
\<close>

definition not_found :: response where
  "not_found = \<lparr>status_code = 404, content_type = None, body_text = []\<rparr>"

definition stub_web ::
  "(string \<times> response) list \<Rightarrow> string list \<Rightarrow> (string \<times> string list) list \<Rightarrow>
   (string \<times> string list) list \<Rightarrow> web" where
  "stub_web pages down locs links =
     \<lparr>client_get = (\<lambda>u. if u \<in> set down then Inl TransportError
                          else (case map_of pages u of Some r \<Rightarrow> Inr r | None \<Rightarrow> Inr not_found)),
      urljoin = (\<lambda>b h. Some (''http://h'' @ h)),
      host_ok = (\<lambda>h. False),
      xml_locs = (\<lambda>t. case map_of locs t of Some l \<Rightarrow> l | None \<Rightarrow> []),
      xml_find = (\<lambda>name t. startswith t (''<'' @ name)),
      hrefs = (\<lambda>t. case map_of links t of Some l \<Rightarrow> l | None \<Rightarrow> [])\<rparr>"

definition xml_page :: "int \<Rightarrow> string \<Rightarrow> response" where
  "xml_page st t = \<lparr>status_code = st, content_type = Some ''application/xml'', body_text = t\<rparr>"

text \<open>
  A site whose \<open>/sitemap.xml\<close> is an index of two child sitemaps, the first with three
  URLs, the second with two; the second child answers with the given status.
\<close>

definition index_site :: "int \<Rightarrow> web" where
  "index_site st =
     stub_web
       [(''http://h/sitemap.xml'', xml_page 200 ''<sitemapindex>''),
        (''http://h/s1.xml'', xml_page 200 ''<urlset>1''),
        (''http://h/s2.xml'', xml_page st ''<urlset>2'')]
       []
       [(''<sitemapindex>'', [''http://h/s1.xml'', ''http://h/s2.xml'']),
        (''<urlset>1'', [''http://h/c'', ''http://h/a'', ''http://h/e'']),
        (''<urlset>2'', [''http://h/d'', ''http://h/b''])]
       []"

text \<open>
  A site whose \<open>/sitemap.xml\<close> is a usable XML document that is neither an index nor a
  urlset, and whose \<open>/sitemap_index.xml\<close> is a urlset.
\<close>

definition feed_site :: web where
  "feed_site =
     stub_web
       [(''http://h/sitemap.xml'', xml_page 200 ''<rss>''),
        (''http://h/sitemap_index.xml'', xml_page 200 ''<urlset>'')]
       []
       [(''<urlset>'', [''http://h/b'', ''http://h/a''])]
       []"

section \<open>Crawl Driver\<close>

definition is_html_response :: "response \<Rightarrow> bool" where
  "is_html_response resp =
     (contains (content_type_or_empty resp) ''text/html'' \<or>
      contains (content_type_or_empty resp) ''application/xhtml+xml'')"

text \<open>
  \<open>extract_links\<close>: the loop over \<open>soup.select("a[href]")\<close>, which skips an empty \<open>href\<close>
  and appends \<open>norm_url(urljoin(base_url, href))\<close> to \<open>links\<close>.
\<close>

fun extract_links_from ::
  "web \<Rightarrow> string \<Rightarrow> string list \<Rightarrow> string list \<Rightarrow> error + string list" where
  "extract_links_from W base_url [] links = Inr links"
| "extract_links_from W base_url (href # rest) links =
     (if href = [] then extract_links_from W base_url rest links
      else
        (case urljoin W base_url href of
           None \<Rightarrow> Inl ValueError
         | Some j \<Rightarrow>
             (case norm_url (host_ok W) j of
                None \<Rightarrow> Inl ValueError
              | Some u \<Rightarrow> extract_links_from W base_url rest (links @ [u]))))"

definition extract_links :: "web \<Rightarrow> string \<Rightarrow> string \<Rightarrow> error + string list" where
  "extract_links W html base_url = extract_links_from W base_url (hrefs W html) []"

text \<open>
  The arguments of the command line that the crawl reads (\<open>--base\<close>, \<open>--max-pages\<close>,
  \<open>--min-tokens\<close>, \<open>--max-tokens\<close>); the delay is the length of every \<open>Sleep\<close> below.
\<close>

record args =
  arg_base :: string
  arg_max_pages :: int
  arg_min_tokens :: int
  arg_max_tokens :: int

text \<open>
  What the crawl loop does to the world, in order: \<open>Fetch url\<close> is a call
  \<open>client.get(url, ...)\<close> of the loop, whether it returns or raises; \<open>Sleep\<close> is a call
  \<open>time.sleep(args.delay)\<close>; \<open>Write c\<close> is the line written to the output for chunk \<open>c\<close>.
  The progress bar and the printed lines are left out.
\<close>

datatype event = Fetch string | Sleep | Write chunk

text \<open>
  The variables of \<open>main\<close> that the loop updates, and \<open>raised\<close>: the exception that ended
  the run, if one did.
\<close>

record crawl =
  queue :: "string list"
  seen :: "string set"
  events :: "event list"
  total_written :: nat
  raised :: "error option"

text \<open>
  The loop \<open>for link in extract_links(html, url)\<close>, which appends to \<open>queue\<close> the links
  for which \<open>same_scope(link, base) and keep_url(link) and link not in seen\<close>.
\<close>

fun enqueue_links :: "web \<Rightarrow> string \<Rightarrow> string list \<Rightarrow> crawl \<Rightarrow> crawl" where
  "enqueue_links W base [] st = st"
| "enqueue_links W base (link # links) st =
     (case same_scope (host_ok W) link base of
        None \<Rightarrow> st\<lparr>raised := Some ValueError\<rparr>
      | Some s \<Rightarrow>
          if \<not> s then enqueue_links W base links st
          else
            (case keep_url (host_ok W) link of
               None \<Rightarrow> st\<lparr>raised := Some ValueError\<rparr>
             | Some k \<Rightarrow>
                 if k \<and> link \<notin> seen st
                 then enqueue_links W base links (st\<lparr>queue := queue st @ [link]\<rparr>)
                 else enqueue_links W base links st))"

text \<open>\<open>xs[:n]\<close> for an integer \<open>n\<close>; a negative \<open>n\<close> counts from the end.\<close>

definition slice_to :: "int \<Rightarrow> 'a list \<Rightarrow> 'a list" where
  "slice_to n xs = (if 0 \<le> n then take (nat n) xs else take (length xs - nat (- n)) xs)"

text \<open>
  The block under \<open>if not urls_from_sitemap\<close>: the links are enqueued, then the queue is
  cut to \<open>max_pages\<close> entries.
\<close>

definition discover :: "web \<Rightarrow> args \<Rightarrow> string \<Rightarrow> crawl \<Rightarrow> string \<Rightarrow> string \<Rightarrow> crawl" where
  "discover W A base st html url =
     (case extract_links W html url of
        Inl e \<Rightarrow> st\<lparr>raised := Some e\<rparr>
      | Inr links \<Rightarrow>
          let st = enqueue_links W base links st in
          if raised st \<noteq> None then st
          else if int (length (queue st)) > arg_max_pages A
          then st\<lparr>queue := slice_to (arg_max_pages A) (queue st)\<rparr>
          else st)"

text \<open>
  The rest of an iteration, from \<open>extract_main_markdown(html)\<close> to the last \<open>sleep\<close>;
  \<open>source\<close> is the constant \<open>"GenesysCloud"\<close>.
\<close>

definition process_page ::
  "'dom html_libs \<Rightarrow> (string \<Rightarrow> string) \<Rightarrow> args \<Rightarrow> crawl \<Rightarrow> string \<Rightarrow> string \<Rightarrow> crawl" where
  "process_page L sha1 A st html url =
     (let title = fst (extract_main_markdown L html);
          markdown = snd (extract_main_markdown L html)
      in
      if markdown = [] \<or> int (length markdown) < 200
      then st\<lparr>events := events st @ [Sleep]\<rparr>
      else
        let sections = split_by_headings markdown;
            chunks = chunk_sections sha1 sections url title ''GenesysCloud''
                       (arg_min_tokens A) (arg_max_tokens A)
        in st\<lparr>events := events st @ map Write chunks @ [Sleep],
                total_written := total_written st + length chunks\<rparr>)"

text \<open>
  One iteration of the \<open>while\<close> loop, for the queue entry \<open>entry = queue[i]\<close>;
  \<open>from_sitemap\<close> says that \<open>urls_from_sitemap\<close> is not empty.
\<close>

definition crawl_body ::
  "web \<Rightarrow> 'dom html_libs \<Rightarrow> (string \<Rightarrow> string) \<Rightarrow> args \<Rightarrow> string \<Rightarrow> bool \<Rightarrow>
   crawl \<Rightarrow> string \<Rightarrow> crawl" where
  "crawl_body W L sha1 A base from_sitemap st entry =
     (case norm_url (host_ok W) entry of
        None \<Rightarrow> st\<lparr>raised := Some ValueError\<rparr>
      | Some url \<Rightarrow>
          if url \<in> seen st then st
          else
            let st = st\<lparr>seen := insert url (seen st)\<rparr> in
            (case client_get W url of
               Inl e \<Rightarrow> st\<lparr>events := events st @ [Fetch url]\<rparr>
             | Inr r \<Rightarrow>
                 let st = st\<lparr>events := events st @ [Fetch url]\<rparr> in
                 if status_code r \<noteq> 200 \<or> \<not> is_html_response r
                 then st\<lparr>events := events st @ [Sleep]\<rparr>
                 else
                   let html = body_text r;
                       st = (if \<not> from_sitemap then discover W A base st html url else st)
                   in if raised st \<noteq> None then st
                      else process_page L sha1 A st html url))"

text \<open>
  The loop \<open>while i < len(queue) and i < args.max_pages\<close>; an exception ends it.
\<close>

function crawl_loop ::
  "web \<Rightarrow> 'dom html_libs \<Rightarrow> (string \<Rightarrow> string) \<Rightarrow> args \<Rightarrow> string \<Rightarrow> bool \<Rightarrow>
   nat \<Rightarrow> crawl \<Rightarrow> crawl" where
  "crawl_loop W L sha1 A base from_sitemap i st =
     (if raised st = None \<and> i < length (queue st) \<and> int i < arg_max_pages A
      then crawl_loop W L sha1 A base from_sitemap (i + 1)
             (crawl_body W L sha1 A base from_sitemap st (queue st ! i))
      else st)"
  by pat_completeness auto
termination
  by (relation "measure (\<lambda>(W, L, sha1, A, base, from_sitemap, i, st). nat (arg_max_pages A - int i))")
     auto

declare crawl_loop.simps [simp del]

text \<open>
  The list comprehension \<open>[u for u in urls_from_sitemap if same_scope(u, base) and
  keep_url(u)]\<close>.
\<close>

fun scope_filter :: "web \<Rightarrow> string \<Rightarrow> string list \<Rightarrow> error + string list" where
  "scope_filter W base [] = Inr []"
| "scope_filter W base (u # us) =
     (case same_scope (host_ok W) u base of
        None \<Rightarrow> Inl ValueError
      | Some s \<Rightarrow>
          (case (if s then keep_url (host_ok W) u else Some False) of
             None \<Rightarrow> Inl ValueError
           | Some k \<Rightarrow>
               (case scope_filter W base us of
                  Inl e \<Rightarrow> Inl e
                | Inr rest \<Rightarrow> Inr (if k then u # rest else rest))))"

definition start :: crawl where
  "start = \<lparr>queue = [], seen = {}, events = [], total_written = 0, raised = None\<rparr>"

definition main :: "web \<Rightarrow> 'dom html_libs \<Rightarrow> (string \<Rightarrow> string) \<Rightarrow> args \<Rightarrow> crawl" where
  "main W L sha1 A =
     (case norm_url (host_ok W) (arg_base A) of
        None \<Rightarrow> start\<lparr>raised := Some ValueError\<rparr>
      | Some base \<Rightarrow>
          (case try_fetch_sitemap W base of
             Inl e \<Rightarrow> start\<lparr>raised := Some e\<rparr>
           | Inr urls_from_sitemap \<Rightarrow>
               if urls_from_sitemap \<noteq> [] then
                 (case scope_filter W base urls_from_sitemap of
                    Inl e \<Rightarrow> start\<lparr>raised := Some e\<rparr>
                  | Inr q \<Rightarrow> crawl_loop W L sha1 A base True 0 (start\<lparr>queue := q\<rparr>))
               else crawl_loop W L sha1 A base False 0 (start\<lparr>queue := [base]\<rparr>)))"

text \<open>The URLs of the fetches in a list of events, in order.\<close>

fun fetched :: "event list \<Rightarrow> string list" where
  "fetched [] = []"
| "fetched (Fetch u # es) = u # fetched es"
| "fetched (Sleep # es) = fetched es"
| "fetched (Write c # es) = fetched es"

text \<open>
  Two sites to run the driver on. \<open>seed_site\<close> has no sitemap; its home page links twice
  to \<open>/a\<close>, once to a special page and once to nothing. \<open>slow_site\<close> has a sitemap of two
  pages: the fetch of the first fails in transport, the second answers 404.
\<close>

definition html_page :: "string \<Rightarrow> response" where
  "html_page t =
     \<lparr>status_code = 200, content_type = Some ''text/html; charset=utf-8'', body_text = t\<rparr>"

definition seed_site :: web where
  "seed_site =
     stub_web [(''http://h/'', html_page ''<home>'')] [] []
       [(''<home>'', [''/a'', ''/a'', ''/Special:Log'', ''''])]"

definition slow_site :: web where
  "slow_site =
     stub_web [(''http://h/sitemap.xml'', xml_page 200 ''<urlset>'')]
       [''http://h/a'']
       [(''<urlset>'', [''http://h/a'', ''http://h/b''])] []"

definition default_args :: args where
  "default_args =
     \<lparr>arg_base = ''http://h/'', arg_max_pages = 5000, arg_min_tokens = 250,
      arg_max_tokens = 900\<rparr>"

text \<open>
  The invariant of the loop: no URL was fetched twice, and every fetched URL is in
  \<open>seen\<close>.
\<close>

definition fetch_inv :: "crawl \<Rightarrow> bool" where
  "fetch_inv st = (distinct (fetched (events st)) \<and> set (fetched (events st)) \<subseteq> seen st)"

text \<open>
  The condition under which the loop over the links appends a link: in scope, allowed,
  and not in the set \<open>vis\<close> of the visited URLs.
\<close>

definition wanted :: "web \<Rightarrow> string \<Rightarrow> string set \<Rightarrow> string \<Rightarrow> bool" where
  "wanted W base vis l =
     (same_scope (host_ok W) l base = Some True \<and> keep_url (host_ok W) l = Some True \<and> l \<notin> vis)"

section \<open>Properties of the Chunker\<close>


lemma strip_eq_self_iff:
  "strip s = s \<longleftrightarrow> s = [] \<or> (\<not> isspace (hd s) \<and> \<not> isspace (last s))"
  by (metis (no_types, lifting) dropWhile_eq_self_iff hd_dropWhile hd_rev
    last_appendR lstrip_def rev.simps(1) rev_rev_ident rstrip_def strip_def
    takeWhile_dropWhile_id)

lemma trimmed_iff: "trimmed s \<longleftrightarrow> s = [] \<or> (\<not> isspace (hd s) \<and> \<not> isspace (last s))"
  by (simp add: trimmed_def strip_eq_self_iff)

lemma rstrip_prefix: "x = rstrip x @ rev (takeWhile isspace (rev x))"
proof -
  have "rev x = takeWhile isspace (rev x) @ dropWhile isspace (rev x)" by simp
  then have "rev (rev x) = rev (takeWhile isspace (rev x) @ dropWhile isspace (rev x))"
    by (rule arg_cong)
  then show ?thesis unfolding rstrip_def rev_append rev_rev_ident .
qed

lemma strip_hd: "strip s \<noteq> [] \<Longrightarrow> \<not> isspace (hd (strip s))"
proof -
  assume ne: "strip s \<noteq> []"
  have "lstrip s = strip s @ rev (takeWhile isspace (rev (lstrip s)))"
    unfolding strip_def by (rule rstrip_prefix)
  then have "hd (lstrip s) = hd (strip s)" using ne by (metis hd_append2)
  moreover have "lstrip s \<noteq> []" using ne by (auto simp: strip_def rstrip_def)
  ultimately show ?thesis by (metis hd_dropWhile lstrip_def)
qed

lemma strip_last: "strip s \<noteq> [] \<Longrightarrow> \<not> isspace (last (strip s))"
  unfolding strip_def rstrip_def
  by (metis hd_dropWhile last_rev rev_is_Nil_conv)

lemma trimmed_strip: "trimmed (strip s)"
  using strip_hd strip_last by (auto simp: trimmed_iff)

lemma trimmed_Nil: "trimmed []"
  by (simp add: trimmed_iff)

lemma strip_glue:
  "trimmed a \<Longrightarrow> a \<noteq> [] \<Longrightarrow> trimmed b \<Longrightarrow> b \<noteq> [] \<Longrightarrow> strip (a @ sep @ b) = a @ sep @ b"
  by (simp add: trimmed_iff strip_eq_self_iff)

lemma trimmed_glue:
  "trimmed a \<Longrightarrow> a \<noteq> [] \<Longrightarrow> trimmed b \<Longrightarrow> b \<noteq> [] \<Longrightarrow> trimmed (a @ sep @ b)"
  by (simp add: trimmed_iff)

lemma flush_append:
  "flush sha1 url title source cs b bpath = cs @ passage sha1 url title source b bpath"
  by (simp add: flush_def passage_def Let_def)

lemma step_greedy:
  assumes "\<forall>hs \<in> set sections. is_section hs" and "trimmed (buf st)"
  shows "(let st' = foldl (chunk_step sha1 url title source min_tok max_tok) st sections
          in if buf st' \<noteq> [] then flush sha1 url title source (chunks st') (buf st') (buf_path st')
             else chunks st')
         = chunks st @ greedy sha1 url title source min_tok max_tok (buf st) (buf_path st) sections"
  using assms
proof (induction sections arbitrary: st)
  case Nil
  then show ?case by (simp add: flush_append)
next
  case (Cons hs rest)
  obtain heading sec where hs: "hs = (heading, sec)" by (cases hs)
  have sec: "trimmed sec" "sec \<noteq> []" using Cons.prems(1) hs by (auto simp: is_section_def)
  have rest: "\<forall>hs \<in> set rest. is_section hs" using Cons.prems(1) by simp
  let ?st1 = "chunk_step sha1 url title source min_tok max_tok st hs"
  have tr: "trimmed (buf ?st1)"
    using sec Cons.prems(2) 
    by (auto simp: chunk_step_def hs Let_def trimmed_Nil trimmed_strip)
  have "(let st' = foldl (chunk_step sha1 url title source min_tok max_tok) ?st1 rest
          in if buf st' \<noteq> [] then flush sha1 url title source (chunks st') (buf st') (buf_path st')
             else chunks st')
         = chunks ?st1 @ greedy sha1 url title source min_tok max_tok (buf ?st1) (buf_path ?st1) rest"
    using Cons.IH[OF rest tr] .
  moreover have "chunks ?st1 @ greedy sha1 url title source min_tok max_tok (buf ?st1) (buf_path ?st1) rest
      = chunks st @ greedy sha1 url title source min_tok max_tok (buf st) (buf_path st) (hs # rest)"
  proof (cases "buf st = []")
    case True
    then show ?thesis by (simp add: chunk_step_def hs Let_def path_of_def)
  next
    case False
    have glue: "strip (buf st @ [NL, NL] @ sec) = buf st @ [NL, NL] @ sec"
      using strip_glue[OF Cons.prems(2) False sec] .
    show ?thesis
      using False glue
      by (simp add: chunk_step_def hs Let_def path_of_def flush_append)
  qed
  ultimately show ?case by simp
qed

lemma chunk_sections_greedy_eq:
  assumes "\<forall>hs \<in> set sections. is_section hs"
  shows "chunk_sections sha1 sections url title source min_tok max_tok
         = greedy sha1 url title source min_tok max_tok [] [] sections"
  using step_greedy[OF assms, of "\<lparr>chunks = [], buf = [], buf_path = []\<rparr>"]
  by (simp add: chunk_sections_def trimmed_Nil)

lemma passage_text:
  "trimmed b \<Longrightarrow> b \<noteq> [] \<Longrightarrow> map chunk_text (passage sha1 url title source b bpath) = [b]"
  by (simp add: passage_def flush_def trimmed_def)

lemma tokens_glue_ge:
  "approx_tokens a + approx_tokens b \<le> approx_tokens (a @ sep @ b) + 1"
  by (simp add: approx_tokens_def) 

lemma example_100_400_500:
  assumes "trimmed s1" "trimmed s2" "trimmed s3"
    and "approx_tokens s1 = 100" "approx_tokens s2 = 400" "approx_tokens s3 = 500"
  shows "map chunk_text (chunk_sections sha1 [(h1, s1), (h2, s2), (h3, s3)] url title source 250 900)
         = [s1 @ [NL, NL] @ s2, s3]"
proof -
  have ne: "s1 \<noteq> []" "s2 \<noteq> []" "s3 \<noteq> []"
    using assms(4-6) by (auto simp: approx_tokens_def)
  have secs: "\<forall>hs \<in> set [(h1, s1), (h2, s2), (h3, s3)]. is_section hs"
    using assms(1-3) ne by (simp add: is_section_def)
  have big: "approx_tokens (s1 @ [NL, NL] @ s2) \<ge> 250"
    using assms(4,5) by (simp add: approx_tokens_def)
  have tr: "trimmed (s1 @ [NL, NL] @ s2)"
    using trimmed_glue[OF assms(1) ne(1) assms(2) ne(2)] .
  show ?thesis
    unfolding chunk_sections_greedy_eq[OF secs]
    using ne big assms(4-6) passage_text[OF tr] passage_text[OF assms(3) ne(3)]
    by simp
qed

lemma join_glue: "join sep ((a @ sep @ b) # xs) = join sep (a # b # xs)"
  by (cases xs) simp_all

lemma join_glue_NL: "join [NL, NL] ((a @ NL # NL # b) # xs) = join [NL, NL] (a # b # xs)"
  using join_glue[of "[NL, NL]" a b xs] by simp

lemma length_join_ge: "length (a @ sep @ b) \<le> length (join sep (a # b # xs))"
  by (cases xs) simp_all

lemma approx_tokens_mono: "length a \<le> length b \<Longrightarrow> approx_tokens a \<le> approx_tokens b"
  unfolding approx_tokens_def
  using zdiv_mono1[of "int (length a)" "int (length b)" 4] by simp

lemma greedy_small:
  assumes "\<forall>hs \<in> set rest. is_section hs" "trimmed b" "b \<noteq> []"
    and "approx_tokens (join [NL, NL] (b # map snd rest)) < min_tok" "min_tok \<le> max_tok"
  shows "map chunk_text (greedy sha1 url title source min_tok max_tok b bpath rest)
         = [join [NL, NL] (b # map snd rest)]"
  using assms
proof (induction rest arbitrary: b bpath)
  case Nil
  then show ?case by (simp add: passage_text)
next
  case (Cons hs rest)
  obtain heading sec where hs: "hs = (heading, sec)" by (cases hs)
  have sec: "trimmed sec" "sec \<noteq> []" using Cons.prems(1) hs by (auto simp: is_section_def)
  have rest: "\<forall>hs \<in> set rest. is_section hs" using Cons.prems(1) by simp
  let ?b = "b @ [NL, NL] @ sec"
  have le: "approx_tokens ?b \<le> approx_tokens (join [NL, NL] (b # sec # map snd rest))"
    by (rule approx_tokens_mono) (rule length_join_ge)
  have small: "approx_tokens ?b < min_tok"
    using le Cons.prems(4) hs by simp
  have nomax: "\<not> approx_tokens b + approx_tokens sec > max_tok"
    using tokens_glue_ge[of b sec "[NL, NL]"] small Cons.prems(5) by linarith
  have tr: "trimmed ?b" using trimmed_glue[OF Cons.prems(2,3) sec] .
  have ne: "?b \<noteq> []" using sec by simp
  have tok: "approx_tokens (join [NL, NL] (?b # map snd rest)) < min_tok"
    using Cons.prems(4) hs by (simp del: join.simps add: join_glue_NL)
  have "map chunk_text (greedy sha1 url title source min_tok max_tok ?b
            (if bpath = [] then path_of title heading else bpath) rest)
        = [join [NL, NL] (?b # map snd rest)]"
    using Cons.IH[OF rest tr ne tok Cons.prems(5)] .
  then show ?case
    using Cons.prems(3) nomax small by (simp del: join.simps add: hs join_glue_NL)
qed

lemma one_passage:
  assumes "sections \<noteq> []" and "\<forall>hs \<in> set sections. is_section hs"
    and "approx_tokens (join [NL, NL] (map snd sections)) < min_tok"
    and "min_tok \<le> max_tok"
  shows "map chunk_text (chunk_sections sha1 sections url title source min_tok max_tok)
         = [join [NL, NL] (map snd sections)]"
proof -
  obtain heading sec rest where s: "sections = (heading, sec) # rest"
    using assms(1) by (cases sections) auto
  have sec: "trimmed sec" "sec \<noteq> []" using assms(2) s by (auto simp: is_section_def)
  have rest: "\<forall>hs \<in> set rest. is_section hs" using assms(2) s by simp
  have tok: "approx_tokens (join [NL, NL] (sec # map snd rest)) < min_tok"
    using assms(3) s by simp
  show ?thesis
    unfolding chunk_sections_greedy_eq[OF assms(2)]
    using greedy_small[OF rest sec tok assms(4)] by (simp add: s)
qed

lemma passage_id_ok: "c \<in> set (passage sha1 url title source b bpath) \<Longrightarrow> id_ok sha1 url c"
  by (auto simp: passage_def flush_def Let_def id_ok_def trimmed_strip split: if_splits)

lemma flush_id_ok:
  "\<forall>c \<in> set cs. id_ok sha1 url c \<Longrightarrow>
   \<forall>c \<in> set (flush sha1 url title source cs b bpath). id_ok sha1 url c"
  by (auto simp: flush_append passage_id_ok)

lemma chunk_step_id_ok:
  "\<forall>c \<in> set (chunks st). id_ok sha1 url c \<Longrightarrow>
   \<forall>c \<in> set (chunks (chunk_step sha1 url title source min_tok max_tok st hs)). id_ok sha1 url c"
  by (auto simp: chunk_step_def Let_def flush_append passage_id_ok)

lemma foldl_id_ok:
  "\<forall>c \<in> set (chunks st). id_ok sha1 url c \<Longrightarrow>
   \<forall>c \<in> set (chunks (foldl (chunk_step sha1 url title source min_tok max_tok) st sections)).
     id_ok sha1 url c"
proof (induction sections arbitrary: st)
  case Nil
  then show ?case by simp
next
  case (Cons hs rest)
  show ?case
    using Cons.IH[OF chunk_step_id_ok[OF Cons.prems]] by simp
qed

lemma chunk_sections_id_ok:
  "\<forall>c \<in> set (chunk_sections sha1 sections url title source min_tok max_tok). id_ok sha1 url c"
proof -
  let ?st = "foldl (chunk_step sha1 url title source min_tok max_tok)
               \<lparr>chunks = [], buf = [], buf_path = []\<rparr> sections"
  have inv: "\<forall>c \<in> set (chunks ?st). id_ok sha1 url c"
    by (rule foldl_id_ok) simp
  show ?thesis
    using inv flush_id_ok[OF inv]
    by (simp add: chunk_sections_def Let_def)
qed

lemma dropWhile_skip: "\<forall>c \<in> set xs. P c \<Longrightarrow> dropWhile P (xs @ ys) = dropWhile P ys"
  by (induction xs) auto

lemma strip_trailing_space:
  assumes "trimmed s" "s \<noteq> []" "\<forall>c \<in> set w. isspace c"
  shows "strip (s @ w) = s"
proof -
  have hl: "\<not> isspace (hd s)" "\<not> isspace (last s)"
    using assms(1,2) by (simp_all add: trimmed_iff)
  have l: "lstrip (s @ w) = s @ w"
    unfolding lstrip_def using hl(1) assms(2) by (cases s) simp_all
  have r: "rev (s @ w) = rev w @ rev s" by simp
  have "\<forall>c \<in> set (rev w). isspace c" using assms(3) by simp
  then have d1: "dropWhile isspace (rev w @ rev s) = dropWhile isspace (rev s)"
    by (rule dropWhile_skip)
  have "hd (rev s) = last s" using assms(2) by (simp add: hd_rev)
  then have "\<not> isspace (hd (rev s))" using hl(2) by simp
  then have d2: "dropWhile isspace (rev s) = rev s"
    by (simp only: dropWhile_eq_self_iff) simp
  have "rstrip (s @ w) = s" unfolding rstrip_def r d1 d2 by simp
  then show ?thesis by (simp add: strip_def l)
qed

lemma headline_untrimmed:
  "map approx_tokens [replicate 400 CHR ''a'', CHR ''b'' # replicate 1599 CHR '' '',
                      replicate 2000 CHR ''c''] = [100, 400, 500]
   \<and> map chunk_text
       (chunk_sections (\<lambda>s. s)
          [(''A'', replicate 400 CHR ''a''), (''B'', CHR ''b'' # replicate 1599 CHR '' ''),
           (''C'', replicate 2000 CHR ''c'')] ''u'' ''T'' ''docs'' 250 900)
     = [replicate 400 CHR ''a'' @ [NL, NL] @ ''b'' @ [NL, NL] @ replicate 2000 CHR ''c'']"
proof -
  let ?a = "replicate 400 CHR ''a''" and ?c = "replicate 2000 CHR ''c''"
  let ?w = "replicate 1599 CHR '' ''"
  have t: "map approx_tokens [?a, CHR ''b'' # ?w, ?c] = [100, 400, 500]"
    by (simp add: approx_tokens_def)
  have ab: "trimmed (?a @ [NL, NL] @ ''b'')" by (simp add: trimmed_iff isspace_def)
  have s1: "strip (?a @ [NL, NL] @ CHR ''b'' # ?w) = ?a @ [NL, NL] @ ''b''"
    using strip_trailing_space[OF ab, of ?w] by (simp add: isspace_def)
  have abc: "trimmed ((?a @ [NL, NL] @ ''b'') @ [NL, NL] @ ?c)"
    by (simp add: trimmed_iff isspace_def)
  have s2: "strip ((?a @ [NL, NL] @ ''b'') @ [NL, NL] @ ?c) = (?a @ [NL, NL] @ ''b'') @ [NL, NL] @ ?c"
    using abc by (simp add: trimmed_def)
  have k1: "approx_tokens ?a = 100" by (simp add: approx_tokens_def)
  have k2: "approx_tokens (CHR ''b'' # ?w) = 400" by (simp add: approx_tokens_def)
  have k3: "approx_tokens ?c = 500" by (simp add: approx_tokens_def)
  have k4: "approx_tokens (?a @ [NL, NL] @ ''b'') = 100" by (simp add: approx_tokens_def)
  have k5: "approx_tokens ((?a @ [NL, NL] @ ''b'') @ [NL, NL] @ ?c) = 601"
    by (simp add: approx_tokens_def)
  have ne: "?a \<noteq> []" "?a @ [NL, NL] @ ''b'' \<noteq> []" by simp_all
  have st1: "chunk_step (\<lambda>s. s) ''u'' ''T'' ''docs'' 250 900
               \<lparr>chunks = [], buf = [], buf_path = []\<rparr> (''A'', ?a)
             = \<lparr>chunks = [], buf = ?a, buf_path = [''T'', ''A'']\<rparr>"
    by (simp add: chunk_step_def)
  have st2: "chunk_step (\<lambda>s. s) ''u'' ''T'' ''docs'' 250 900
               \<lparr>chunks = [], buf = ?a, buf_path = [''T'', ''A'']\<rparr> (''B'', CHR ''b'' # ?w)
             = \<lparr>chunks = [], buf = ?a @ [NL, NL] @ ''b'', buf_path = [''T'', ''A'']\<rparr>"
    unfolding chunk_step_def Let_def fst_conv snd_conv
    using ne(1) k1 k2 k4 s1 by simp
  have st3: "map chunk_text (chunks (chunk_step (\<lambda>s. s) ''u'' ''T'' ''docs'' 250 900
               \<lparr>chunks = [], buf = ?a @ [NL, NL] @ ''b'', buf_path = [''T'', ''A'']\<rparr> (''C'', ?c)))
             = [(?a @ [NL, NL] @ ''b'') @ [NL, NL] @ ?c]
           \<and> buf (chunk_step (\<lambda>s. s) ''u'' ''T'' ''docs'' 250 900
               \<lparr>chunks = [], buf = ?a @ [NL, NL] @ ''b'', buf_path = [''T'', ''A'']\<rparr> (''C'', ?c)) = []"
    unfolding chunk_step_def Let_def fst_conv snd_conv
    using ne(2) k3 k4 k5 s2 by (simp add: flush_def Let_def)
  have "map chunk_text
       (chunk_sections (\<lambda>s. s)
          [(''A'', ?a), (''B'', CHR ''b'' # ?w), (''C'', ?c)] ''u'' ''T'' ''docs'' 250 900)
     = [(?a @ [NL, NL] @ ''b'') @ [NL, NL] @ ?c]"
    unfolding chunk_sections_def foldl.simps st1 st2 Let_def
    using st3 by simp
  then show ?thesis using t by simp
qed


section \<open>Properties of the URL Normalizer\<close>

lemma before_append: "c \<notin> set x \<Longrightarrow> before c (x @ c # y) = x"
  unfolding before_def by (induction x) auto

lemma after_append: "c \<notin> set x \<Longrightarrow> after c (x @ c # y) = y"
  unfolding after_def by (induction x) auto

lemma before_notin: "c \<notin> set (before c s)"
  unfolding before_def by (induction s) auto

lemma before_after: "c \<in> set s \<Longrightarrow> s = before c s @ c # after c s"
  unfolding before_def after_def by (induction s) auto

lemma before_prefix: "c \<in> set x \<Longrightarrow> before c (x @ y) = before c x"
  unfolding before_def by (induction x) auto

lemma before_id: "c \<notin> set s \<Longrightarrow> before c s = s"
  unfolding before_def by (induction s) auto

lemma set_before: "set (before c s) \<subseteq> set s"
  unfolding before_def by (induction s) auto

lemma set_after: "set (after c s) \<subseteq> set s"
  unfolding after_def by (induction s) auto

lemma split_scheme_like:
  "split_scheme url = (if scheme_like url then (map lower_char (before CHR '':'' url), after CHR '':'' url)
                       else ([], url))"
  by (simp add: split_scheme_def scheme_like_def)

lemma scheme_char_not_special:
  "scheme_char c \<Longrightarrow> c \<noteq> CHR '':'' \<and> c \<noteq> CHR ''?'' \<and> c \<noteq> CHR ''#'' \<and> c \<noteq> CHR ''/'' \<and> c \<noteq> CHR '';''"
  by (auto simp: scheme_char_def ascii_lower_def ascii_upper_def ascii_digit_def)

lemma of_char_lower: "ascii_upper c \<Longrightarrow> (of_char (lower_char c) :: nat) = of_char c + 32"
  by (simp add: lower_char_def ascii_upper_def)

lemma lower_char_upper: "ascii_upper c \<Longrightarrow> ascii_lower (lower_char c)"
  using of_char_lower[of c] by (simp add: ascii_lower_def ascii_upper_def)

lemma lower_char_fix: "\<not> ascii_upper c \<Longrightarrow> lower_char c = c"
  by (simp add: lower_char_def)

lemma lower_not_upper: "ascii_lower c \<Longrightarrow> \<not> ascii_upper c"
  by (simp add: ascii_lower_def ascii_upper_def)

lemma lower_char_idem: "lower_char (lower_char c) = lower_char c"
  by (cases "ascii_upper c") (simp_all add: lower_char_fix lower_char_upper lower_not_upper)

lemma scheme_char_lower: "scheme_char c \<Longrightarrow> scheme_char (lower_char c)"
  by (cases "ascii_upper c") (auto simp: lower_char_fix scheme_char_def dest: lower_char_upper)

lemma letter_lower: "ascii_lower c \<or> ascii_upper c \<Longrightarrow> ascii_lower (lower_char c)"
  by (cases "ascii_upper c") (auto simp: lower_char_fix lower_char_upper)

lemma unsafe_c0: "unsafe_url_byte c \<Longrightarrow> c0_control_or_space c"
  by (auto simp: unsafe_url_byte_def c0_control_or_space_def)

lemma scheme_char_safe: "scheme_char c \<Longrightarrow> \<not> c0_control_or_space c"
  by (auto simp: scheme_char_def ascii_lower_def ascii_upper_def ascii_digit_def c0_control_or_space_def)

lemma cleanup_id:
  assumes "\<forall>c \<in> set s. \<not> unsafe_url_byte c" and "s = [] \<or> \<not> c0_control_or_space (hd s)"
  shows "filter (\<lambda>c. \<not> unsafe_url_byte c) (dropWhile c0_control_or_space s) = s"
proof -
  have "dropWhile c0_control_or_space s = s"
    using assms(2) by (cases s) auto
  then show ?thesis using assms(1) by (simp add: filter_id_conv)
qed

lemma split_scheme_assembled:
  assumes "sch \<noteq> []" "ascii_lower (hd sch)" "list_all scheme_char sch" "map lower_char sch = sch"
  shows "split_scheme (sch @ CHR '':'' # rest) = (sch, rest)"
proof -
  have nc: "CHR '':'' \<notin> set sch"
    using assms(3) scheme_char_not_special by (auto simp: list_all_iff)
  have b: "before CHR '':'' (sch @ CHR '':'' # rest) = sch" using nc by (rule before_append)
  have a: "after CHR '':'' (sch @ CHR '':'' # rest) = rest" using nc by (rule after_append)
  have h: "hd (sch @ CHR '':'' # rest) = hd sch" using assms(1) by simp
  show ?thesis
    unfolding split_scheme_def b a h using assms by simp
qed

lemma splitnetloc_assembled:
  assumes "\<forall>c \<in> set nl. \<not> netloc_delim c" and "tail = [] \<or> netloc_delim (hd tail)"
  shows "splitnetloc (''//'' @ nl @ tail) = (nl, tail)"
proof -
  have t: "takeWhile (\<lambda>c. \<not> netloc_delim c) (nl @ tail) = nl"
    using assms by (cases tail) (auto simp: takeWhile_append2 takeWhile_eq_all_conv)
  have d: "dropWhile (\<lambda>c. \<not> netloc_delim c) (nl @ tail) = tail"
    using assms by (cases tail) (auto simp: dropWhile_append2 dropWhile_append3)
  show ?thesis by (simp add: splitnetloc_def t d)
qed

lemma take2_slashes: "take 2 (''//'' @ x) = ''//''"
  by simp

lemma urlsplit_assembled:
  assumes sch: "sch = [] \<or> (ascii_lower (hd sch) \<and> list_all scheme_char sch \<and> map lower_char sch = sch)"
    and nl: "\<forall>c \<in> set nl. \<not> netloc_delim c" "netloc_ok h nl"
    and pp: "CHR ''#'' \<notin> set pp" "CHR ''?'' \<notin> set pp" "CHR ''#'' \<notin> set qry"
    and bdy: "bdy = (if dsl then ''//'' @ nl @ pp else pp)"
    and d1: "dsl \<Longrightarrow> pp = [] \<or> hd pp = CHR ''/''"
    and d2: "\<not> dsl \<Longrightarrow> nl = [] \<and> take 2 pp \<noteq> ''//''"
    and qp: "qp = (if qry \<noteq> [] then CHR ''?'' # qry else [])"
    and nos: "sch = [] \<Longrightarrow> \<not> scheme_like (bdy @ qp)"
    and clean: "\<forall>c \<in> set (sch @ nl @ pp @ qry). \<not> unsafe_url_byte c"
    and first: "sch = [] \<Longrightarrow> bdy @ qp = [] \<or> \<not> c0_control_or_space (hd (bdy @ qp))"
  shows "urlsplit h ((if sch \<noteq> [] then sch @ '':'' else []) @ bdy @ qp)
         = Some \<lparr>scheme = sch, netloc = nl, path = pp, params = [], query = qry, fragment = []\<rparr>"
proof -
  let ?s = "(if sch \<noteq> [] then sch @ '':'' else []) @ bdy @ qp"
  have safe: "\<forall>c \<in> set ?s. \<not> unsafe_url_byte c"
    using clean by (auto simp: bdy qp unsafe_url_byte_def)
  have hd_ok: "?s = [] \<or> \<not> c0_control_or_space (hd ?s)"
  proof (cases "sch = []")
    case True
    then show ?thesis using first by simp
  next
    case False
    then have "ascii_lower (hd sch)" using sch by simp
    then have "\<not> c0_control_or_space (hd sch)"
      by (simp add: ascii_lower_def c0_control_or_space_def)
    then show ?thesis using False by simp
  qed
  have c: "filter (\<lambda>c. \<not> unsafe_url_byte c) (dropWhile c0_control_or_space ?s) = ?s"
    using safe hd_ok by (rule cleanup_id)
  have ss: "split_scheme ?s = (sch, bdy @ qp)"
  proof (cases "sch = []")
    case True
    then show ?thesis using nos by (simp add: split_scheme_like)
  next
    case False
    then show ?thesis using sch split_scheme_assembled[of sch "bdy @ qp"] by simp
  qed
  have tail: "pp @ qp = [] \<or> netloc_delim (hd (pp @ qp))" if dsl
    using d1[OF that] by (cases pp) (auto simp: qp netloc_delim_def)
  have n1: "take 2 (bdy @ qp) = ''//''" if dsl
    using that by (simp add: bdy)
  have n2: "splitnetloc (bdy @ qp) = (nl, pp @ qp)" if dsl
    using splitnetloc_assembled[OF nl(1) tail[OF that]] that by (simp add: bdy)
  have n3: "take 2 (bdy @ qp) \<noteq> ''//''" if "\<not> dsl"
  proof -
    have p2: "take 2 pp \<noteq> ''//''" and b: "bdy = pp" using d2[OF that] that bdy by simp_all
    show ?thesis
    proof (cases pp)
      case Nil
      then show ?thesis by (auto simp: b qp)
    next
      case (Cons a as)
      then show ?thesis using p2 by (cases as) (auto simp: b qp)
    qed
  qed
  have n4: "nl = []" "bdy = pp" if "\<not> dsl" using d2[OF that] that bdy by simp_all
  have fr: "CHR ''#'' \<notin> set (pp @ qp)" using pp by (auto simp: qp)
  have q1: "CHR ''?'' \<in> set (pp @ qp) \<longleftrightarrow> qry \<noteq> []" using pp(2) by (auto simp: qp)
  have q2: "before CHR ''?'' (pp @ qp) = pp"
    using pp(2) by (auto simp: qp before_append before_id)
  have q3: "qry \<noteq> [] \<Longrightarrow> after CHR ''?'' (pp @ qp) = qry"
    using pp(2) by (auto simp: qp after_append)
  have q0: "qry = [] \<Longrightarrow> qp = []" by (simp add: qp)
  show ?thesis
  proof (cases dsl)
    case True
    show ?thesis
      unfolding urlsplit_def c Let_def ss fst_conv snd_conv
      using n1[OF True] n2[OF True] fr q0 q1 q2 q3 nl(2)
      by (auto simp del: take_eq_Nil)
  next
    case False
    show ?thesis
      unfolding urlsplit_def c Let_def ss fst_conv snd_conv
      using n3[OF False] n4[OF False] fr q0 q1 q2 q3 nl(2)
      by (auto simp del: take_eq_Nil)
  qed
qed

lemma takeWhile_all: "\<forall>c \<in> set xs. P c \<Longrightarrow> takeWhile P xs = xs"
  by (simp add: takeWhile_eq_all_conv)

lemma last_segment_no_slash: "CHR ''/'' \<notin> set x \<Longrightarrow> last_segment x = x"
proof -
  assume "CHR ''/'' \<notin> set x"
  then have "\<forall>c \<in> set (rev x). c \<noteq> CHR ''/''" by auto
  then have t: "takeWhile (\<lambda>c. c \<noteq> CHR ''/'') (rev x) = rev x"
    by (rule takeWhile_all)
  show ?thesis unfolding last_segment_def t by (rule rev_rev_ident)
qed

lemma last_segment_notin: "CHR ''/'' \<notin> set (last_segment x)"
proof
  assume "CHR ''/'' \<in> set (last_segment x)"
  then have "CHR ''/'' \<in> set (takeWhile (\<lambda>c. c \<noteq> CHR ''/'') (rev x))"
    by (simp add: last_segment_def)
  then show False using set_takeWhileD by fastforce
qed

lemma takeWhile_stop: "\<forall>c \<in> set xs. P c \<Longrightarrow> \<not> P y \<Longrightarrow> takeWhile P (xs @ y # ys) = xs"
  by (induction xs) auto

lemma last_segment_append_slash:
  "CHR ''/'' \<notin> set seg \<Longrightarrow> last_segment (ys @ CHR ''/'' # seg) = seg"
proof -
  assume ns: "CHR ''/'' \<notin> set seg"
  have r: "rev (ys @ CHR ''/'' # seg) = rev seg @ CHR ''/'' # rev ys" by simp
  have "\<forall>c \<in> set (rev seg). c \<noteq> CHR ''/''" using ns by auto
  then have t: "takeWhile (\<lambda>c. c \<noteq> CHR ''/'') (rev seg @ CHR ''/'' # rev ys) = rev seg"
    by (rule takeWhile_stop) simp
  show ?thesis unfolding last_segment_def r t by (rule rev_rev_ident)
qed

lemma slash_decomp:
  "CHR ''/'' \<in> set x \<Longrightarrow> \<exists>ys. x = ys @ CHR ''/'' # last_segment x"
proof (induction x rule: rev_induct)
  case Nil
  then show ?case by simp
next
  case (snoc c x)
  show ?case
  proof (cases "c = CHR ''/''")
    case True
    have "last_segment (x @ [CHR ''/'']) = []"
      using last_segment_append_slash[of "[]" x] by simp
    then show ?thesis using True by simp
  next
    case False
    then have in_x: "CHR ''/'' \<in> set x" using snoc.prems by auto
    then obtain ys where ys: "x = ys @ CHR ''/'' # last_segment x" using snoc.IH by blast
    have ns: "CHR ''/'' \<notin> set (last_segment x @ [c])"
      using last_segment_notin[of x] False by auto
    have e: "x @ [c] = ys @ CHR ''/'' # (last_segment x @ [c])"
      by (subst ys) simp
    have "last_segment (ys @ CHR ''/'' # (last_segment x @ [c])) = last_segment x @ [c]"
      using ns by (rule last_segment_append_slash)
    then have l: "last_segment (x @ [c]) = last_segment x @ [c]"
      unfolding e[symmetric] .
    show ?thesis unfolding l using e by blast
  qed
qed

lemma splitparams_slash:
  assumes x: "x = ys @ CHR ''/'' # seg" and ns: "CHR ''/'' \<notin> set seg"
  shows "splitparams x = (if CHR '';'' \<in> set seg
                          then (ys @ CHR ''/'' # before CHR '';'' seg, after CHR '';'' seg)
                          else (x, []))"
proof -
  have l: "last_segment x = seg" unfolding x using ns by (rule last_segment_append_slash)
  have t: "take (length x - length seg) x = ys @ [CHR ''/'']" unfolding x by simp
  have s: "CHR ''/'' \<in> set x" unfolding x by simp
  show ?thesis unfolding splitparams_def l t using s by simp
qed

lemma splitparams_noslash:
  "CHR ''/'' \<notin> set x \<Longrightarrow> splitparams x = (before CHR '';'' x, after CHR '';'' x)"
  by (simp add: splitparams_def)

lemma canon_noslash:
  assumes "CHR ''/'' \<notin> set x"
  shows "canon sch x = x \<or> (x = canon sch x @ '';'' \<and> CHR '';'' \<notin> set (canon sch x))"
proof (cases "sch \<in> set uses_params \<and> CHR '';'' \<in> set x")
  case False
  then have "canon sch x = x" unfolding canon_def by (simp only: if_False)
  then show ?thesis by simp
next
  case True
  then have semi: "CHR '';'' \<in> set x" by simp
  have x: "x = before CHR '';'' x @ CHR '';'' # after CHR '';'' x"
    using semi by (rule before_after)
  show ?thesis
  proof (cases "after CHR '';'' x = []")
    case e: True
    have c: "canon sch x = before CHR '';'' x"
      using True e by (simp add: canon_def splitparams_noslash[OF assms])
    have "x = before CHR '';'' x @ '';''" using x e by simp
    then show ?thesis unfolding c using before_notin[of "CHR '';''" x] by blast
  next
    case ne: False
    have "canon sch x = before CHR '';'' x @ '';'' @ after CHR '';'' x"
      using True ne by (simp add: canon_def splitparams_noslash[OF assms])
    then show ?thesis using x by simp
  qed
qed

lemma canon_slash_decomp:
  assumes x: "x = ys @ CHR ''/'' # seg" and ns: "CHR ''/'' \<notin> set seg"
  shows "canon sch x = ys @ CHR ''/'' # canon sch seg"
proof (cases "sch \<in> set uses_params")
  case False
  then show ?thesis by (simp add: canon_def x)
next
  case up: True
  show ?thesis
  proof (cases "CHR '';'' \<in> set seg")
    case False
    have "splitparams x = (x, [])" using splitparams_slash[OF x ns] False by simp
    then have "canon sch x = x" by (simp add: canon_def)
    moreover have "canon sch seg = seg" using False by (simp add: canon_def)
    ultimately show ?thesis using x by simp
  next
    case True
    have sx: "CHR '';'' \<in> set x" using True x by simp
    have sp: "splitparams x = (ys @ CHR ''/'' # before CHR '';'' seg, after CHR '';'' seg)"
      using splitparams_slash[OF x ns] True by simp
    have sg: "splitparams seg = (before CHR '';'' seg, after CHR '';'' seg)"
      using ns by (rule splitparams_noslash)
    show ?thesis
      using up True sx by (simp add: canon_def sp sg)
  qed
qed

lemma canon_cases:
  "canon sch x = x \<or>
   (x = canon sch x @ '';'' \<and> CHR '';'' \<notin> set (last_segment (canon sch x)))"
proof (cases "CHR ''/'' \<in> set x")
  case False
  have l: "CHR ''/'' \<notin> set (canon sch x)"
    using canon_noslash[OF False, of sch] False by (metis Un_iff set_append)
  show ?thesis
    using canon_noslash[OF False, of sch] last_segment_no_slash[OF l] by metis
next
  case True
  then obtain ys where x: "x = ys @ CHR ''/'' # last_segment x" using slash_decomp by blast
  let ?seg = "last_segment x"
  have ns: "CHR ''/'' \<notin> set ?seg" by (rule last_segment_notin)
  have c: "canon sch x = ys @ CHR ''/'' # canon sch ?seg" using x ns by (rule canon_slash_decomp)
  have nc: "CHR ''/'' \<notin> set (canon sch ?seg)"
    using canon_noslash[OF ns, of sch] ns by (metis Un_iff set_append)
  have ls: "last_segment (canon sch x) = canon sch ?seg"
    unfolding c using nc by (rule last_segment_append_slash)
  from canon_noslash[OF ns, of sch] show ?thesis
  proof
    assume "canon sch ?seg = ?seg"
    then show ?thesis using c x by simp
  next
    assume a: "?seg = canon sch ?seg @ '';'' \<and> CHR '';'' \<notin> set (canon sch ?seg)"
    have "x = ys @ CHR ''/'' # (canon sch ?seg @ '';'')" using x a by metis
    then have "x = canon sch x @ '';''" unfolding c by simp
    then show ?thesis using a ls by simp
  qed
qed

lemma canon_fix: "CHR '';'' \<notin> set (last_segment a) \<Longrightarrow> canon sch a = a"
proof (cases "CHR ''/'' \<in> set a")
  case False
  assume "CHR '';'' \<notin> set (last_segment a)"
  then have "CHR '';'' \<notin> set a" using last_segment_no_slash[OF False] by simp
  then show ?thesis by (simp add: canon_def)
next
  case True
  assume n: "CHR '';'' \<notin> set (last_segment a)"
  obtain ys where a: "a = ys @ CHR ''/'' # last_segment a" using True slash_decomp by blast
  have "canon sch a = ys @ CHR ''/'' # canon sch (last_segment a)"
    using a last_segment_notin by (rule canon_slash_decomp)
  moreover have "canon sch (last_segment a) = last_segment a" using n by (simp add: canon_def)
  ultimately show ?thesis using a by simp
qed

lemma canon_idem: "canon sch (canon sch x) = canon sch x"
  using canon_cases[of sch x] canon_fix[of "canon sch x" sch] by auto

lemma canon_Cons_slash: "canon sch (CHR ''/'' # p) = CHR ''/'' # canon sch p"
proof (cases "CHR ''/'' \<in> set p")
  case False
  show ?thesis using canon_slash_decomp[of "CHR ''/'' # p" "[]" p sch] False by simp
next
  case True
  then obtain ys where p: "p = ys @ CHR ''/'' # last_segment p" using slash_decomp by blast
  have a: "canon sch p = ys @ CHR ''/'' # canon sch (last_segment p)"
    using p last_segment_notin by (rule canon_slash_decomp)
  have "CHR ''/'' # p = (CHR ''/'' # ys) @ CHR ''/'' # last_segment p" using p by simp
  then have "canon sch (CHR ''/'' # p) = (CHR ''/'' # ys) @ CHR ''/'' # canon sch (last_segment p)"
    using last_segment_notin by (rule canon_slash_decomp)
  then show ?thesis using a by simp
qed

lemma canon_prefix: "\<exists>t. x = canon sch x @ t \<and> (t = [] \<or> t = '';'')"
  using canon_cases[of sch x] by auto

lemma canon_set: "set (canon sch x) \<subseteq> set x"
  using canon_prefix[of x sch] by (metis Un_upper1 set_append)

lemma canon_Nil: "canon sch [] = []"
  by (simp add: canon_def)

lemma canon_hd: "canon sch x \<noteq> [] \<Longrightarrow> hd (canon sch x) = hd x"
  using canon_prefix[of x sch] by (metis hd_append2)

lemma scheme_like_prefix: "scheme_like a \<Longrightarrow> scheme_like (a @ t)"
proof -
  assume s: "scheme_like a"
  then have c: "CHR '':'' \<in> set a" by (simp add: scheme_like_def)
  then have ne: "a \<noteq> []" by auto
  have b: "before CHR '':'' (a @ t) = before CHR '':'' a" using c by (rule before_prefix)
  show ?thesis using s c ne unfolding scheme_like_def b by simp
qed

lemma scheme_like_canon: "scheme_like (canon sch x) \<Longrightarrow> scheme_like x"
  using canon_prefix[of x sch] scheme_like_prefix by metis

lemma urlparse_full_path:
  assumes "urlsplit h u = Some r" and "params r = []"
  shows "\<exists>r'. urlparse h u = Some r' \<and> scheme r' = scheme r \<and> netloc r' = netloc r \<and>
              query r' = query r \<and> fragment r' = fragment r \<and>
              full_path r' = canon (scheme r) (path r)"
proof (cases "scheme r \<in> set uses_params \<and> CHR '';'' \<in> set (path r)")
  case True
  then show ?thesis using assms(1) by (simp add: urlparse_def full_path_def canon_def)
next
  case False
  then have c: "canon (scheme r) (path r) = path r" unfolding canon_def by (simp only: if_False)
  have "urlparse h u = Some r" using False assms(1) unfolding urlparse_def by auto
  then show ?thesis using c assms(2) by (simp add: full_path_def)
qed

lemma cleanup_facts:
  fixes u :: string
  defines "url1 \<equiv> filter (\<lambda>c. \<not> unsafe_url_byte c) (dropWhile c0_control_or_space u)"
  shows "\<forall>c \<in> set url1. \<not> unsafe_url_byte c"
    and "url1 = [] \<or> \<not> c0_control_or_space (hd url1)"
proof -
  show "\<forall>c \<in> set url1. \<not> unsafe_url_byte c" by (simp add: url1_def)
  let ?d = "dropWhile c0_control_or_space u"
  show "url1 = [] \<or> \<not> c0_control_or_space (hd url1)"
  proof (cases ?d)
    case Nil
    show ?thesis unfolding url1_def Nil by simp
  next
    case (Cons a as)
    then have "\<not> c0_control_or_space a" using hd_dropWhile[of c0_control_or_space u] by auto
    moreover from this have "\<not> unsafe_url_byte a" using unsafe_c0 by blast
    ultimately show ?thesis by (simp add: url1_def Cons)
  qed
qed

lemma split_scheme_facts:
  assumes "split_scheme url1 = (sch, url2)"
  shows "sch = [] \<or> (ascii_lower (hd sch) \<and> list_all scheme_char sch \<and> map lower_char sch = sch)"
    and "set url2 \<subseteq> set url1"
    and "sch = [] \<Longrightarrow> url2 = url1 \<and> \<not> scheme_like url1"
    and "\<forall>c \<in> set sch. \<not> unsafe_url_byte c"
proof -
  show a: "sch = [] \<or> (ascii_lower (hd sch) \<and> list_all scheme_char sch \<and> map lower_char sch = sch)"
  proof (cases "scheme_like url1")
    case False
    then show ?thesis using assms by (simp add: split_scheme_like)
  next
    case True
    let ?b = "before CHR '':'' url1"
    have s: "sch = map lower_char ?b" using True assms by (simp add: split_scheme_like)
    have ne: "?b \<noteq> []" and all: "list_all scheme_char ?b"
      and l: "ascii_lower (hd url1) \<or> ascii_upper (hd url1)"
      using True by (simp_all add: scheme_like_def)
    have "hd ?b = hd url1" using ne unfolding before_def by (cases url1) (auto split: if_splits)
    then have "ascii_lower (hd sch)" using l ne letter_lower by (simp add: s hd_map)
    moreover have "list_all scheme_char sch"
      using all scheme_char_lower by (simp add: s list_all_iff)
    moreover have "map lower_char sch = sch" by (simp add: s lower_char_idem)
    ultimately show ?thesis by blast
  qed
  show "set url2 \<subseteq> set url1"
    using assms set_after[of "CHR '':''" url1] by (auto simp: split_scheme_like split: if_splits)
  show "sch = [] \<Longrightarrow> url2 = url1 \<and> \<not> scheme_like url1"
    using assms by (auto simp: split_scheme_like scheme_like_def split: if_splits)
  show "\<forall>c \<in> set sch. \<not> unsafe_url_byte c"
  proof (cases "sch = []")
    case True
    then show ?thesis by simp
  next
    case False
    then have "list_all scheme_char sch" using a by blast
    then show ?thesis using scheme_char_safe unsafe_c0 by (auto simp: list_all_iff)
  qed
qed

lemma prefix_before_or_id:
  "\<exists>t. x = (if c \<in> set x then before c x else x) @ t"
  using before_after[of c x] by (cases "c \<in> set x") auto

lemma splitnetloc_facts:
  assumes "splitnetloc url2 = (nl, url3)"
  shows "\<forall>c \<in> set nl. \<not> netloc_delim c" and "set nl \<subseteq> set url2" and "set url3 \<subseteq> set url2"
    and "url3 = [] \<or> netloc_delim (hd url3)"
proof -
  have n: "nl = takeWhile (\<lambda>c. \<not> netloc_delim c) (drop 2 url2)"
    and u: "url3 = dropWhile (\<lambda>c. \<not> netloc_delim c) (drop 2 url2)"
    using assms by (simp_all add: splitnetloc_def)
  show "\<forall>c \<in> set nl. \<not> netloc_delim c" unfolding n using set_takeWhileD by fastforce
  show "set nl \<subseteq> set url2" unfolding n
    using set_takeWhileD set_drop_subset by fastforce
  show "set url3 \<subseteq> set url2" unfolding u
    using set_dropWhileD set_drop_subset by fastforce
  show "url3 = [] \<or> netloc_delim (hd url3)" unfolding u
    using hd_dropWhile[of "\<lambda>c. \<not> netloc_delim c" "drop 2 url2"] by blast
qed

lemma urlsplit_normal:
  assumes "urlsplit h u = Some r"
  shows "normal_parts h (scheme r) (netloc r) (path r) (query r) \<and> params r = []"
proof -
  define url1 where "url1 = filter (\<lambda>c. \<not> unsafe_url_byte c) (dropWhile c0_control_or_space u)"
  define sch where "sch = fst (split_scheme url1)"
  define url2 where "url2 = snd (split_scheme url1)"
  define nl where "nl = (if take 2 url2 = ''//'' then fst (splitnetloc url2) else [])"
  define url3 where "url3 = (if take 2 url2 = ''//'' then snd (splitnetloc url2) else url2)"
  define url4 where "url4 = (if CHR ''#'' \<in> set url3 then before CHR ''#'' url3 else url3)"
  define qry where "qry = (if CHR ''?'' \<in> set url4 then after CHR ''?'' url4 else [])"
  define url5 where "url5 = (if CHR ''?'' \<in> set url4 then before CHR ''?'' url4 else url4)"
  have r: "scheme r = sch" "netloc r = nl" "path r = url5" "query r = qry" "params r = []"
    and ok: "netloc_ok h nl"
    using assms
    unfolding urlsplit_def Let_def url1_def[symmetric] sch_def[symmetric] url2_def[symmetric]
      nl_def[symmetric] url3_def[symmetric] url4_def[symmetric] qry_def[symmetric]
      url5_def[symmetric]
    by (auto split: if_splits)
  have c1: "\<forall>c \<in> set url1. \<not> unsafe_url_byte c"
    and c1h: "url1 = [] \<or> \<not> c0_control_or_space (hd url1)"
    unfolding url1_def by (rule cleanup_facts)+
  have ss: "split_scheme url1 = (sch, url2)" by (simp add: sch_def url2_def)
  note sf = split_scheme_facts[OF ss]
  have s3: "set nl \<subseteq> set url2" "set url3 \<subseteq> set url2" "\<forall>c \<in> set nl. \<not> netloc_delim c"
    and h3: "take 2 url2 = ''//'' \<Longrightarrow> url3 = [] \<or> netloc_delim (hd url3)"
    using splitnetloc_facts[of url2 "fst (splitnetloc url2)" "snd (splitnetloc url2)"]
    by (auto simp: nl_def url3_def)
  obtain t4 where t4: "url3 = url4 @ t4"
    using prefix_before_or_id[of url3 "CHR ''#''"] unfolding url4_def by blast
  obtain t5 where t5: "url4 = url5 @ t5"
    using prefix_before_or_id[of url4 "CHR ''?''"] unfolding url5_def by blast
  have n4: "CHR ''#'' \<notin> set url4"
    unfolding url4_def using before_notin[of "CHR ''#''" url3] by simp
  have n5: "CHR ''?'' \<notin> set url5"
    unfolding url5_def using before_notin[of "CHR ''?''" url4] by simp
  have sub5: "set url5 \<subseteq> set url4" using t5 by auto
  have subq: "set qry \<subseteq> set url4" unfolding qry_def using set_after[of "CHR ''?''" url4] by auto
  have sub4: "set url4 \<subseteq> set url3" using t4 by auto
  have in1: "set nl \<subseteq> set url1" "set url5 \<subseteq> set url1" "set qry \<subseteq> set url1"
    using sf(2) s3(1,2) sub4 sub5 subq by blast+
  have safe: "\<forall>c \<in> set (sch @ nl @ url5 @ qry). \<not> unsafe_url_byte c"
    using sf(4) c1 in1 by auto
  have hd5: "url5 \<noteq> [] \<Longrightarrow> hd url5 = hd url3" using t4 t5 by (cases url5) auto
  have slash: "take 2 url2 = ''//'' \<Longrightarrow> url5 = [] \<or> hd url5 = CHR ''/''"
  proof -
    assume tk: "take 2 url2 = ''//''"
    show ?thesis
    proof (cases "url5 = []")
      case True
      then show ?thesis by simp
    next
      case False
      then have "url3 \<noteq> []" using t4 t5 by auto
      then have "netloc_delim (hd url5)" using h3[OF tk] hd5[OF False] by simp
      moreover have "hd url5 \<in> set url5" using False by simp
      ultimately show ?thesis using n5 n4 sub5 by (auto simp: netloc_delim_def)
    qed
  qed
  have e: "nl \<noteq> [] \<longrightarrow> url5 = [] \<or> hd url5 = CHR ''/''"
    using slash by (auto simp: nl_def)
  have f: "sch = [] \<and> nl = [] \<longrightarrow> url5 = [] \<or> (\<not> c0_control_or_space (hd url5) \<and> \<not> scheme_like url5)"
  proof (intro impI)
    assume a: "sch = [] \<and> nl = []"
    show "url5 = [] \<or> (\<not> c0_control_or_space (hd url5) \<and> \<not> scheme_like url5)"
    proof (cases "take 2 url2 = ''//''")
      case True
      from slash[OF True] show ?thesis
      proof
        assume "url5 = []" then show ?thesis by simp
      next
        assume h: "hd url5 = CHR ''/''"
        then show ?thesis
          by (simp add: c0_control_or_space_def scheme_like_def ascii_lower_def ascii_upper_def)
      qed
    next
      case False
      have u21: "url2 = url1" and ns: "\<not> scheme_like url1" using sf(3) a by simp_all
      have u3: "url3 = url1" using False u21 by (simp add: url3_def)
      have pre: "url1 = url5 @ (t5 @ t4)" using t4 t5 u3 by simp
      show ?thesis
      proof (cases "url5 = []")
        case True
        then show ?thesis by simp
      next
        case ne: False
        have "hd url5 = hd url1" using pre ne by (cases url5) auto
        then have "\<not> c0_control_or_space (hd url5)" using c1h pre ne by auto
        moreover have "\<not> scheme_like url5"
          using ns scheme_like_prefix[of url5 "t5 @ t4"] pre by auto
        ultimately show ?thesis by simp
      qed
    qed
  qed
  show ?thesis
    unfolding normal_parts_def r
    using safe sf(1) s3(3) ok n4 n5 sub5 subq e f by auto
qed

lemma geturl_full_path:
  "geturl r = urlunsplit (scheme r) (netloc r) (full_path r) (query r) (fragment r)"
  by (simp add: geturl_def full_path_def)

lemma normal_parts_canon:
  assumes "normal_parts h sch nl p qry"
  shows "normal_parts h sch nl (canon sch p) qry"
proof -
  obtain t where t: "p = canon sch p @ t" using canon_prefix[of p sch] by blast
  have sub: "set (canon sch p) \<subseteq> set p" by (rule canon_set)
  have hd: "canon sch p \<noteq> [] \<Longrightarrow> hd (canon sch p) = hd p" by (rule canon_hd)
  have pn: "canon sch p \<noteq> [] \<Longrightarrow> p \<noteq> []" using t by auto
  have sl: "scheme_like (canon sch p) \<Longrightarrow> scheme_like p" by (rule scheme_like_canon)
  have a: "\<forall>c \<in> set (sch @ nl @ canon sch p @ qry). \<not> unsafe_url_byte c"
    using assms sub unfolding normal_parts_def by auto
  have b: "CHR ''#'' \<notin> set (canon sch p)" "CHR ''?'' \<notin> set (canon sch p)"
    using assms sub unfolding normal_parts_def by auto
  have A: "nl \<noteq> [] \<longrightarrow> p = [] \<or> hd p = CHR ''/''"
    and B: "sch = [] \<and> nl = [] \<longrightarrow> p = [] \<or> (\<not> c0_control_or_space (hd p) \<and> \<not> scheme_like p)"
    using assms unfolding normal_parts_def by blast+
  have c: "nl \<noteq> [] \<longrightarrow> canon sch p = [] \<or> hd (canon sch p) = CHR ''/''"
  proof (intro impI)
    assume n: "nl \<noteq> []"
    show "canon sch p = [] \<or> hd (canon sch p) = CHR ''/''"
    proof (cases "canon sch p = []")
      case True
      then show ?thesis by simp
    next
      case False
      then have "hd p = CHR ''/''" using A n pn by blast
      then show ?thesis using hd[OF False] by simp
    qed
  qed
  have d: "sch = [] \<and> nl = [] \<longrightarrow>
           canon sch p = [] \<or> (\<not> c0_control_or_space (hd (canon sch p)) \<and> \<not> scheme_like (canon sch p))"
  proof (intro impI)
    assume n: "sch = [] \<and> nl = []"
    show "canon sch p = [] \<or> (\<not> c0_control_or_space (hd (canon sch p)) \<and> \<not> scheme_like (canon sch p))"
    proof (cases "canon sch p = []")
      case True
      then show ?thesis by simp
    next
      case False
      then have "\<not> c0_control_or_space (hd p) \<and> \<not> scheme_like p" using B n pn by blast
      then show ?thesis using hd[OF False] sl by auto
    qed
  qed
  have rest: "(sch = [] \<or> (ascii_lower (hd sch) \<and> list_all scheme_char sch \<and> map lower_char sch = sch))"
    "\<forall>c \<in> set nl. \<not> netloc_delim c" "netloc_ok h nl" "CHR ''#'' \<notin> set qry"
    using assms unfolding normal_parts_def by blast+
  show ?thesis
    unfolding normal_parts_def
    by (intro conjI a rest b c d)
qed

lemma urlparse_normal:
  assumes "urlparse h u = Some r"
  shows "normal_parts h (scheme r) (netloc r) (full_path r) (query r) \<and>
         canon (scheme r) (full_path r) = full_path r"
proof -
  obtain r0 where r0: "urlsplit h u = Some r0"
    using assms by (auto simp: urlparse_def split: option.splits)
  have n0: "normal_parts h (scheme r0) (netloc r0) (path r0) (query r0)" and p0: "params r0 = []"
    using urlsplit_normal[OF r0] by simp_all
  obtain r' where r': "urlparse h u = Some r'" "scheme r' = scheme r0" "netloc r' = netloc r0"
      "query r' = query r0" "full_path r' = canon (scheme r0) (path r0)"
    using urlparse_full_path[OF r0 p0] by blast
  have e: "r' = r" using r'(1) assms by simp
  show ?thesis
    using normal_parts_canon[OF n0] r'(2-5) canon_idem[of "scheme r0" "path r0"]
    unfolding e by simp
qed

lemma before_skip: "c \<notin> set p \<Longrightarrow> before c (p @ y) = p @ before c y"
  unfolding before_def by (induction p) auto

lemma not_scheme_like_slash: "\<not> scheme_like (CHR ''/'' # x)"
  by (simp add: scheme_like_def ascii_lower_def ascii_upper_def)

lemma not_scheme_like_query:
  assumes "\<not> scheme_like p"
  shows "\<not> scheme_like (p @ CHR ''?'' # q)"
proof
  assume s: "scheme_like (p @ CHR ''?'' # q)"
  show False
  proof (cases "CHR '':'' \<in> set p")
    case True
    then have ne: "p \<noteq> []" by auto
    have b: "before CHR '':'' (p @ CHR ''?'' # q) = before CHR '':'' p"
      using True by (rule before_prefix)
    have "scheme_like p" using s True ne unfolding scheme_like_def b by simp
    then show False using assms by simp
  next
    case False
    have b: "before CHR '':'' (p @ CHR ''?'' # q) = p @ before CHR '':'' (CHR ''?'' # q)"
      using False by (rule before_skip)
    have "CHR ''?'' \<in> set (before CHR '':'' (p @ CHR ''?'' # q))"
      unfolding b by (simp add: before_def)
    moreover have "list_all scheme_char (before CHR '':'' (p @ CHR ''?'' # q))"
      using s by (simp add: scheme_like_def)
    ultimately have "scheme_char CHR ''?''" by (simp add: list_all_iff)
    then show False using scheme_char_not_special by blast
  qed
qed

lemma urlunsplit_shape:
  "urlunsplit sch nl p qry [] =
     (if sch \<noteq> [] then sch @ '':'' else []) @
     (if nl \<noteq> [] \<or> (sch \<noteq> [] \<and> sch \<in> set uses_netloc) \<or> take 2 p = ''//''
      then ''//'' @ nl @ (if p \<noteq> [] \<and> take 1 p \<noteq> ''/'' then ''/'' @ p else p)
      else p) @
     (if qry \<noteq> [] then CHR ''?'' # qry else [])"
  by (simp add: urlunsplit_def Let_def)

lemma urlunsplit_slash:
  assumes "nl \<noteq> [] \<or> (sch \<noteq> [] \<and> sch \<in> set uses_netloc)" "p \<noteq> []" "take 1 p \<noteq> ''/''"
  shows "urlunsplit sch nl (CHR ''/'' # p) qry [] = urlunsplit sch nl p qry []"
  using assms by (simp add: urlunsplit_shape)

lemma reparse:
  assumes N: "normal_parts h sch nl p qry" and C: "canon sch p = p"
  shows "norm_url h (urlunsplit sch nl p qry []) = Some (urlunsplit sch nl p qry [])"
proof -
  define dsl where "dsl = (nl \<noteq> [] \<or> (sch \<noteq> [] \<and> sch \<in> set uses_netloc) \<or> take 2 p = ''//'')"
  define pp where "pp = (if dsl then (if p \<noteq> [] \<and> take 1 p \<noteq> ''/'' then ''/'' @ p else p) else p)"
  define bdy where "bdy = (if dsl then ''//'' @ nl @ pp else pp)"
  define qp where "qp = (if qry \<noteq> [] then CHR ''?'' # qry else [])"
  let ?s = "urlunsplit sch nl p qry []"
  have s: "?s = (if sch \<noteq> [] then sch @ '':'' else []) @ bdy @ qp"
    unfolding urlunsplit_shape bdy_def pp_def dsl_def qp_def by simp
  have safe: "\<forall>c \<in> set (sch @ nl @ p @ qry). \<not> unsafe_url_byte c"
    and sch: "sch = [] \<or> (ascii_lower (hd sch) \<and> list_all scheme_char sch \<and> map lower_char sch = sch)"
    and nl: "\<forall>c \<in> set nl. \<not> netloc_delim c" "netloc_ok h nl"
    and np: "CHR ''#'' \<notin> set p" "CHR ''?'' \<notin> set p" "CHR ''#'' \<notin> set qry"
    and A: "nl \<noteq> [] \<longrightarrow> p = [] \<or> hd p = CHR ''/''"
    and B: "sch = [] \<and> nl = [] \<longrightarrow> p = [] \<or> (\<not> c0_control_or_space (hd p) \<and> \<not> scheme_like p)"
    using N unfolding normal_parts_def by blast+
  have pp_cases: "pp = p \<or> (pp = CHR ''/'' # p \<and> dsl \<and> p \<noteq> [] \<and> take 1 p \<noteq> ''/'')"
    unfolding pp_def by auto
  have npp: "CHR ''#'' \<notin> set pp" "CHR ''?'' \<notin> set pp"
    using np pp_cases by auto
  have d1: "dsl \<Longrightarrow> pp = [] \<or> hd pp = CHR ''/''"
    unfolding pp_def by (cases p) auto
  have d2: "\<not> dsl \<Longrightarrow> nl = [] \<and> take 2 pp \<noteq> ''//''"
    unfolding pp_def dsl_def by auto
  have slash_safe: "\<not> unsafe_url_byte CHR ''/''" by (simp add: unsafe_url_byte_def)
  have "set pp \<subseteq> insert CHR ''/'' (set p)" using pp_cases by auto
  then have pp_safe: "\<forall>c \<in> set pp. \<not> unsafe_url_byte c"
    using safe slash_safe by auto
  have clean: "\<forall>c \<in> set (sch @ nl @ pp @ qry). \<not> unsafe_url_byte c"
    using safe pp_safe by auto
  have nos: "\<not> scheme_like (bdy @ qp)" if e: "sch = []"
  proof (cases dsl)
    case True
    then show ?thesis using not_scheme_like_slash by (simp add: bdy_def)
  next
    case False
    then have b: "bdy = p" and n: "nl = []" by (simp_all add: bdy_def pp_def dsl_def)
    have nsp: "\<not> scheme_like p"
    proof (cases "p = []")
      case True
      then show ?thesis by (simp add: scheme_like_def)
    next
      case False
      then show ?thesis using B e n by blast
    qed
    show ?thesis
    proof (cases "qry = []")
      case True
      then show ?thesis using nsp by (simp add: b qp_def)
    next
      case False
      then show ?thesis using not_scheme_like_query[OF nsp, of qry] by (simp add: b qp_def)
    qed
  qed
  have first: "bdy @ qp = [] \<or> \<not> c0_control_or_space (hd (bdy @ qp))" if e: "sch = []"
  proof (cases dsl)
    case True
    then show ?thesis by (simp add: bdy_def c0_control_or_space_def)
  next
    case False
    then have b: "bdy = p" and n: "nl = []" by (simp_all add: bdy_def pp_def dsl_def)
    show ?thesis
    proof (cases "p = []")
      case True
      then show ?thesis by (simp add: b qp_def c0_control_or_space_def)
    next
      case False
      then have "\<not> c0_control_or_space (hd p)" using B e n by blast
      then show ?thesis using False by (simp add: b)
    qed
  qed
  have spl: "urlsplit h ?s
         = Some \<lparr>scheme = sch, netloc = nl, path = pp, params = [], query = qry, fragment = []\<rparr>"
    unfolding s
    by (rule urlsplit_assembled[OF sch nl npp np(3) bdy_def d1 d2 qp_def nos clean first])
  obtain r' where r': "urlparse h ?s = Some r'" "scheme r' = sch" "netloc r' = nl"
      "query r' = qry" "full_path r' = canon sch pp"
    using urlparse_full_path[OF spl] by auto
  have cpp: "canon sch pp = pp"
    using pp_cases C canon_Cons_slash[of sch p] by auto
  have bk: "urlunsplit sch nl pp qry [] = ?s"
  proof -
    from pp_cases show ?thesis
    proof
      assume "pp = p" then show ?thesis by simp
    next
      assume a: "pp = CHR ''/'' # p \<and> dsl \<and> p \<noteq> [] \<and> take 1 p \<noteq> ''/''"
      then have "take 2 p \<noteq> ''//''" by (cases p) auto
      then have "nl \<noteq> [] \<or> (sch \<noteq> [] \<and> sch \<in> set uses_netloc)" using a by (simp add: dsl_def)
      then show ?thesis using a urlunsplit_slash by simp
    qed
  qed
  have "norm_url h ?s = Some (urlunsplit sch nl (full_path r') qry [])"
    using r'(1-4) by (simp add: norm_url_def geturl_full_path full_path_def)
  then show ?thesis using r'(5) cpp bk by simp
qed

lemma norm_url_shape:
  "urlparse h u = Some r \<Longrightarrow>
   norm_url h u = Some (urlunsplit (scheme r) (netloc r) (full_path r) (query r) [])"
  by (simp add: norm_url_def geturl_def full_path_def)

lemma norm_url_idem: "norm_url h u = Some s \<Longrightarrow> norm_url h s = Some s"
proof -
  assume a: "norm_url h u = Some s"
  then obtain r where r: "urlparse h u = Some r"
    by (auto simp: norm_url_def split: option.splits)
  have s: "s = urlunsplit (scheme r) (netloc r) (full_path r) (query r) []"
    using a norm_url_shape[OF r] by simp
  have n: "normal_parts h (scheme r) (netloc r) (full_path r) (query r)"
    and c: "canon (scheme r) (full_path r) = full_path r"
    using urlparse_normal[OF r] by simp_all
  show ?thesis unfolding s using n c by (rule reparse)
qed

lemma norm_url_fragment:
  "urlparse h u = Some p \<Longrightarrow> urlparse h v = Some q \<Longrightarrow>
   p\<lparr>fragment := []\<rparr> = q\<lparr>fragment := []\<rparr> \<Longrightarrow> norm_url h u = norm_url h v"
  by (simp add: norm_url_def)

lemma norm_url_old_fragment:
  "urlparse h u = Some p \<Longrightarrow> urlparse h v = Some q \<Longrightarrow>
   p\<lparr>fragment := []\<rparr> = q\<lparr>fragment := []\<rparr> \<Longrightarrow> norm_url_old h u = norm_url_old h v"
  by (simp add: norm_url_old_def)

section \<open>Properties of the Section Splitter\<close>


lemma isspace_not_hash: "isspace c \<Longrightarrow> c \<noteq> CHR ''#''"
  by (auto simp: isspace_def)

lemma takeWhile_hash: "takeWhile (\<lambda>c. c = CHR ''#'') l = replicate (length (takeWhile (\<lambda>c. c = CHR ''#'') l)) CHR ''#''"
  by (induction l) auto

lemma heading_re_iff: "heading_re l \<noteq> None \<longleftrightarrow> heading_line l"
proof
  let ?k = "length (takeWhile (\<lambda>c. c = CHR ''#'') l)"
  assume "heading_re l \<noteq> None"
  then have k: "1 \<le> ?k" "?k \<le> 6" and r: "drop ?k l \<noteq> []" "isspace (hd (drop ?k l))"
    by (auto simp: heading_re_def Let_def split: if_splits)
  have lt: "?k < length l" using r(1) by simp
  have "take ?k l = replicate ?k CHR ''#''"
    using takeWhile_hash[of l] by (metis takeWhile_eq_take)
  moreover have "isspace (l ! ?k)" using r(2) lt by (simp add: hd_drop_conv_nth)
  moreover have "?k \<in> set [1, 2, 3, 4, 5, 6]" using k by auto
  ultimately show "heading_line l" using lt unfolding heading_line_def by blast
next
  assume "heading_line l"
  then obtain k where k: "k \<in> set [1, 2, 3, 4, 5, 6]" "take k l = replicate k CHR ''#''"
      "k < length l" "isspace (l ! k)"
    unfolding heading_line_def by blast
  have "takeWhile (\<lambda>c. c = CHR ''#'') l = take k l"
  proof (rule takeWhile_eq_take_P_nth)
    fix i assume "i < k" "i < length l"
    then have "l ! i = take k l ! i" by simp
    then show "l ! i = CHR ''#''" using k(2) \<open>i < k\<close> by simp
  next
    assume "k < length l"
    show "\<not> l ! k = CHR ''#''" using k(4) isspace_not_hash by blast
  qed
  then have len: "length (takeWhile (\<lambda>c. c = CHR ''#'') l) = k" using k(3) by simp
  have "drop k l \<noteq> []" using k(3) by simp
  moreover have "isspace (hd (drop k l))" using k(3,4) by (simp add: hd_drop_conv_nth)
  moreover have "1 \<le> k \<and> k \<le> 6" using k(1) by auto
  ultimately show "heading_re l \<noteq> None"
    by (simp add: heading_re_def Let_def len)
qed

lemma strip_lstrip: "strip (dropWhile isspace x) = strip x"
  by (simp add: strip_def lstrip_def)

lemma heading_re_text:
  assumes "heading_re l = Some g"
  shows "strip g = heading_text l"
proof -
  have d: "drop (length (takeWhile (\<lambda>c. c = CHR ''#'') l)) l = dropWhile (\<lambda>c. c = CHR ''#'') l"
    by (simp only: dropWhile_eq_drop)
  have "g = dropWhile isspace (dropWhile (\<lambda>c. c = CHR ''#'') l)"
    using assms unfolding heading_re_def Let_def d by (simp split: if_splits)
  then show ?thesis by (simp only: heading_text_def strip_lstrip)
qed

lemma heading_line_hash_space:
  assumes "1 \<le> k" "k \<le> 6"
  shows "heading_line (replicate k CHR ''#'' @ CHR '' '' # txt)"
    and "heading_text (replicate k CHR ''#'' @ CHR '' '' # txt) = strip txt"
proof -
  have "k \<in> set [1, 2, 3, 4, 5, 6]" using assms by auto
  then show "heading_line (replicate k CHR ''#'' @ CHR '' '' # txt)"
    unfolding heading_line_def
    by (intro bexI[of _ k]) (simp_all add: isspace_def nth_append)
  have "dropWhile (\<lambda>c. c = CHR ''#'') (replicate k CHR ''#'' @ CHR '' '' # txt) = CHR '' '' # txt"
    by (simp add: dropWhile_append3)
  moreover have "strip (CHR '' '' # txt) = strip txt"
    by (simp add: strip_def lstrip_def isspace_def)
  ultimately show "heading_text (replicate k CHR ''#'' @ CHR '' '' # txt) = strip txt"
    by (simp add: heading_text_def)
qed

lemma split_fold:
  "close_current (foldl split_step st ls)
   = split_sections st
     @ (let c = current st @ takeWhile (\<lambda>x. \<not> heading_line x) ls
        in if c = [] then [] else [(current_heading st, c)])
     @ heading_sections ls"
proof (induction ls arbitrary: st)
  case Nil
  then show ?case by (simp add: close_current_def)
next
  case (Cons l ls)
  show ?case
  proof (cases "heading_re l")
    case None
    then have nh: "\<not> heading_line l" using heading_re_iff[of l] by simp
    have st: "split_step st l = st\<lparr>current := current st @ [l]\<rparr>"
      by (simp add: split_step_def None)
    show ?thesis using Cons.IH[of "split_step st l"] nh by (simp add: st)
  next
    case (Some g)
    then have h: "heading_line l" using heading_re_iff[of l] by simp
    have t: "strip g = heading_text l" using Some by (rule heading_re_text)
    show ?thesis using Cons.IH[of "split_step st l"] h t
      by (simp add: split_step_def Some Let_def)
  qed
qed

lemma split_by_headings_spec: "split_by_headings markdown = spec_sections (splitlines markdown)"
proof -
  have "close_current (foldl split_step \<lparr>split_sections = [], current_heading = [], current = []\<rparr>
                (splitlines markdown))
        = preface (splitlines markdown) @ heading_sections (splitlines markdown)"
    by (simp add: split_fold preface_def Let_def)
  then show ?thesis
    by (simp add: split_by_headings_def spec_sections_def close_current_def Let_def section_text_def
        filter_map comp_def)
qed

lemma split_by_headings_is_section: "hs \<in> set (split_by_headings markdown) \<Longrightarrow> is_section hs"
  using trimmed_strip[unfolded trimmed_def]
  by (auto simp: split_by_headings_def Let_def is_section_def trimmed_def)


lemma splitlines_from_no_linebreak:
  "\<forall>c \<in> set cur. \<not> linebreak c \<Longrightarrow> l \<in> set (splitlines_from cur s) \<Longrightarrow>
   \<forall>c \<in> set l. \<not> linebreak c"
proof (induction cur s rule: splitlines_from.induct)
  case (1 cur)
  then show ?case by (simp split: if_splits)
next
  case (2 cur c)
  then show ?case by (cases "linebreak c") auto
next
  case (3 cur c d cs)
  show ?case
  proof (cases "c = CR \<and> d = NL")
    case True
    then have "l = cur \<or> l \<in> set (splitlines_from [] cs)" using "3.prems"(2) by auto
    then show ?thesis using "3.IH"(1)[OF True] "3.prems"(1) by auto
  next
    case False
    show ?thesis
    proof (cases "linebreak c")
      case True
      then have "l = cur \<or> l \<in> set (splitlines_from [] (d # cs))"
        using "3.prems"(2) False by auto
      then show ?thesis using "3.IH"(2)[OF False True] "3.prems"(1) by auto
    next
      case nl: False
      have "l \<in> set (splitlines_from (cur @ [c]) (d # cs))"
        using "3.prems"(2) False nl by auto
      moreover have "\<forall>x \<in> set (cur @ [c]). \<not> linebreak x" using "3.prems"(1) nl by auto
      ultimately show ?thesis using "3.IH"(3)[OF False nl] by blast
    qed
  qed
qed

lemma splitlines_no_linebreak: "l \<in> set (splitlines s) \<Longrightarrow> \<forall>c \<in> set l. \<not> linebreak c"
  unfolding splitlines_def by (rule splitlines_from_no_linebreak) simp_all

section \<open>Properties of the Content Extractor\<close>


lemma collapse_fix: "\<not> has_blank_run s \<Longrightarrow> collapse_newlines s = s"
  by (induction s rule: has_blank_run.induct) auto

lemma no_newline_no_run: "\<forall>c \<in> set s. c \<noteq> NL \<Longrightarrow> \<not> has_blank_run s"
  by (induction s rule: has_blank_run.induct) auto

lemma collapse_head2: "\<exists>ys. collapse_newlines (b # c # cs) = b # c # ys"
proof (induction cs arbitrary: b c)
  case Nil
  then show ?case by simp
next
  case (Cons d ds)
  obtain ys where "collapse_newlines (c # d # ds) = c # d # ys" using Cons by blast
  then show ?case by auto
qed

lemma collapse_no_run: "\<not> has_blank_run (collapse_newlines s)"
proof (induction s rule: collapse_newlines.induct)
  case (1 a b c cs)
  obtain ys where y: "collapse_newlines (b # c # cs) = b # c # ys"
    using collapse_head2 by blast
  show ?case
  proof (cases "a = NL \<and> b = NL \<and> c = NL")
    case True
    then show ?thesis using 1 by simp
  next
    case False
    then show ?thesis using 1 y by auto
  qed
qed simp_all

lemma has_blank_run_Cons: "has_blank_run s \<Longrightarrow> has_blank_run (a # s)"
  by (cases s rule: has_blank_run.cases) auto

lemma has_blank_run_append: "has_blank_run xs \<Longrightarrow> has_blank_run (xs @ ys)"
  by (induction xs rule: has_blank_run.induct) auto

lemma no_run_dropWhile: "\<not> has_blank_run s \<Longrightarrow> \<not> has_blank_run (dropWhile P s)"
  by (induction s) (auto dest: has_blank_run_Cons)

lemma no_run_strip: "\<not> has_blank_run s \<Longrightarrow> \<not> has_blank_run (strip s)"
proof -
  assume "\<not> has_blank_run s"
  then have "\<not> has_blank_run (lstrip s)" unfolding lstrip_def by (rule no_run_dropWhile)
  then have "\<not> has_blank_run (rstrip (lstrip s) @ rev (takeWhile isspace (rev (lstrip s))))"
    using rstrip_prefix[of "lstrip s"] by simp
  then show ?thesis unfolding strip_def using has_blank_run_append by blast
qed

lemma strip_collapse_idem:
  "strip (collapse_newlines (strip (collapse_newlines x))) = strip (collapse_newlines x)"
proof -
  have "\<not> has_blank_run (strip (collapse_newlines x))"
    by (rule no_run_strip) (rule collapse_no_run)
  then have "collapse_newlines (strip (collapse_newlines x)) = strip (collapse_newlines x)"
    by (rule collapse_fix)
  then show ?thesis using trimmed_strip[of "collapse_newlines x"] by (simp add: trimmed_def)
qed

lemma or_else_chain:
  "or_else a (or_else b (or_else c d))
   = (if a \<noteq> None then a else if b \<noteq> None then b else if c \<noteq> None then c else d)"
  by (auto simp: or_else_def split: option.splits)

lemma extract_main_markdown_paths:
  "extract_main_markdown L html =
     (strip (case short_title L html of None \<Rightarrow> [] | Some t \<Rightarrow> t),
      if int (length (heuristic_text L html)) < 200
      then (case fallback_container L html of
              Some m \<Rightarrow> fallback_text L m
            | None \<Rightarrow> heuristic_text L html)
      else heuristic_text L html)"
proof -
  have idem: "strip (collapse_newlines (heuristic_text L html)) = heuristic_text L html"
    unfolding heuristic_text_def by (rule strip_collapse_idem)
  show ?thesis
    unfolding extract_main_markdown_def Let_def or_else_chain
    using idem
    by (simp add: heuristic_text_def fallback_container_def fallback_text_def Let_def
          split: option.splits)
qed

section \<open>Properties of the sitemap strategy\<close>


lemma fetch_children_ok:
  "\<forall>c. \<exists>r. client_get W c = Inr r \<Longrightarrow>
   fetch_children W cs urls = Inr (urls @ concat (map (child_locs W) cs))"
proof (induction cs arbitrary: urls)
  case Nil
  then show ?case by simp
next
  case (Cons c cs)
  obtain r where r: "client_get W c = Inr r" using Cons.prems by blast
  show ?case using Cons.IH[OF Cons.prems] r by (simp add: child_locs_def)
qed

lemma sort_remdups_set: "sort (remdups xs) = sorted_list_of_set (set xs)"
  by (simp add: sorted_list_of_set_sort_remdups)

lemma document_urls_index:
  assumes "\<forall>c. \<exists>r. client_get W c = Inr r" "xml_find W ''sitemapindex'' doc"
  shows "(case fetch_children W (xml_locs W doc) [] of Inl e \<Rightarrow> Inl e
          | Inr urls' \<Rightarrow> Inr (sort (remdups urls'))) = Inr (document_urls W doc)"
  using assms(2) by (simp add: fetch_children_ok[OF assms(1)] sort_remdups_set document_urls_def)

lemma try_candidates_two:
  assumes ok: "\<forall>c. \<exists>r. client_get W c = Inr r"
    and r1: "client_get W c1 = Inr r1" and r2: "client_get W c2 = Inr r2"
  shows "try_candidates W [c1, c2] [] =
         Inr (if is_sitemap W r1 then document_urls W (body_text r1)
              else if is_sitemap W r2 then document_urls W (body_text r2)
              else [])"
proof -
  have d: "xml_find W ''sitemapindex'' doc \<Longrightarrow>
      (case fetch_children W (xml_locs W doc) [] of Inl e \<Rightarrow> Inl e
          | Inr urls' \<Rightarrow> Inr (sort (remdups urls'))) = Inr (document_urls W doc)" for doc
    using document_urls_index[OF ok] by blast
  have u: "\<not> xml_find W ''sitemapindex'' doc \<Longrightarrow>
      sort (remdups (xml_locs W doc)) = document_urls W doc" for doc
    by (simp add: document_urls_def sort_remdups_set)
  show ?thesis
    using r1 r2 d u
    by (auto simp: is_sitemap_def usable_def Let_def)
qed

lemma index_two_children:
  assumes ok: "\<forall>c. \<exists>r. client_get W c = Inr r"
    and "xml_find W ''sitemapindex'' doc" and "xml_locs W doc = [a, b]"
    and "client_get W a = Inr ra" "status_code ra = 200"
    and "client_get W b = Inr rb" "status_code rb = 200"
    and "card (set (xml_locs W (body_text ra))) = 3"
    and "card (set (xml_locs W (body_text rb))) = 2"
    and "set (xml_locs W (body_text ra)) \<inter> set (xml_locs W (body_text rb)) = {}"
  shows "length (document_urls W doc) = 5 \<and> distinct (document_urls W doc) \<and>
         sorted (document_urls W doc) \<and>
         set (document_urls W doc)
           = set (xml_locs W (body_text ra)) \<union> set (xml_locs W (body_text rb))"
proof -
  let ?A = "set (xml_locs W (body_text ra))" and ?B = "set (xml_locs W (body_text rb))"
  have d: "document_urls W doc = sorted_list_of_set (?A \<union> ?B)"
    using assms(2-7) by (simp add: document_urls_def child_locs_def)
  have c: "card (?A \<union> ?B) = 5"
    using assms(8-10) by (simp add: card_Un_disjoint)
  show ?thesis unfolding d using c by simp
qed

section \<open>Properties of the Crawl Driver\<close>


lemma fetched_append: "fetched (xs @ ys) = fetched xs @ fetched ys"
  by (induction xs rule: fetched.induct) simp_all

lemma fetched_Write: "fetched (map Write cs) = []"
  by (induction cs) simp_all

lemma enqueue_links_keeps:
  "events (enqueue_links W base links st) = events st \<and>
   seen (enqueue_links W base links st) = seen st"
  by (induction links arbitrary: st) (auto split: option.splits)

lemma discover_keeps:
  "events (discover W A base st html url) = events st \<and>
   seen (discover W A base st html url) = seen st"
  by (auto simp: discover_def Let_def enqueue_links_keeps split: sum.splits)

lemma process_page_keeps:
  "fetched (events (process_page L sha1 A st html url)) = fetched (events st) \<and>
   seen (process_page L sha1 A st html url) = seen st \<and>
   queue (process_page L sha1 A st html url) = queue st"
  by (simp add: process_page_def Let_def fetched_append fetched_Write)

lemma crawl_body_inv:
  assumes "fetch_inv st"
  shows "fetch_inv (crawl_body W L sha1 A base from_sitemap st entry)"
proof (cases "norm_url (host_ok W) entry")
  case None
  then show ?thesis using assms by (simp add: crawl_body_def fetch_inv_def)
next
  case (Some url)
  show ?thesis
  proof (cases "url \<in> seen st")
    case True
    then show ?thesis using assms Some by (simp add: crawl_body_def)
  next
    case False
    then have nf: "url \<notin> set (fetched (events st))" using assms by (auto simp: fetch_inv_def)
    show ?thesis
      using assms Some False nf
      by (auto simp: crawl_body_def fetch_inv_def Let_def fetched_append discover_keeps
            process_page_keeps split: sum.splits)
  qed
qed

lemma crawl_loop_inv:
  "fetch_inv st \<Longrightarrow> fetch_inv (crawl_loop W L sha1 A base from_sitemap i st)"
proof (induction W L sha1 A base from_sitemap i st rule: crawl_loop.induct)
  case (1 W L sha1 A base from_sitemap i st)
  show ?case
  proof (cases "raised st = None \<and> i < length (queue st) \<and> int i < arg_max_pages A")
    case True
    have "fetch_inv (crawl_body W L sha1 A base from_sitemap st (queue st ! i))"
      using "1.prems" by (rule crawl_body_inv)
    then have "fetch_inv (crawl_loop W L sha1 A base from_sitemap (i + 1)
                 (crawl_body W L sha1 A base from_sitemap st (queue st ! i)))"
      using "1.IH" True by blast
    then show ?thesis using True by (subst crawl_loop.simps) simp
  next
    case False
    then show ?thesis using "1.prems" by (subst crawl_loop.simps) auto
  qed
qed

lemma main_inv: "fetch_inv (main W L sha1 A)"
proof -
  have s: "fetch_inv (start\<lparr>queue := q\<rparr>)" for q by (simp add: fetch_inv_def start_def)
  have r: "fetch_inv (start\<lparr>raised := e\<rparr>)" for e by (simp add: fetch_inv_def start_def)
  show ?thesis
    unfolding main_def
    by (auto split: option.splits sum.splits intro: crawl_loop_inv s r)
qed

lemma same_scope_Some:
  "urlparse h base \<noteq> None \<Longrightarrow> urlparse h l \<noteq> None \<Longrightarrow> \<exists>s. same_scope h l base = Some s"
  by (auto simp: same_scope_def split: option.splits)

lemma keep_url_Some: "urlparse h l \<noteq> None \<Longrightarrow> \<exists>k. keep_url h l = Some k"
  by (auto simp: keep_url_def split: option.splits)

lemma enqueue_links_filter:
  assumes "urlparse (host_ok W) base \<noteq> None"
    and "\<forall>l \<in> set links. urlparse (host_ok W) l \<noteq> None"
  shows "enqueue_links W base links st
         = st\<lparr>queue := queue st @ filter (wanted W base (seen st)) links\<rparr>"
  using assms(2)
proof (induction links arbitrary: st)
  case Nil
  then show ?case by simp
next
  case (Cons l links)
  have pl: "urlparse (host_ok W) l \<noteq> None" using Cons.prems by simp
  obtain s where s: "same_scope (host_ok W) l base = Some s"
    using same_scope_Some[OF assms(1) pl] by blast
  obtain k where k: "keep_url (host_ok W) l = Some k"
    using keep_url_Some[OF pl] by blast
  have rest: "\<forall>l \<in> set links. urlparse (host_ok W) l \<noteq> None" using Cons.prems by simp
  show ?case
    using Cons.IH[OF rest] s k by (simp add: wanted_def)
qed

lemma extract_links_from_map:
  "extract_links_from W b hs acc = Inr links \<Longrightarrow>
   map Some links
   = map Some acc @ map (\<lambda>h. Option.bind (urljoin W b h) (norm_url (host_ok W)))
                      (filter (\<lambda>h. h \<noteq> []) hs)"
  by (induction hs arbitrary: acc) (auto split: if_splits option.splits)

lemma extract_links_map:
  "extract_links W html b = Inr links \<Longrightarrow>
   map Some links
   = map (\<lambda>h. Option.bind (urljoin W b h) (norm_url (host_ok W)))
       (filter (\<lambda>h. h \<noteq> []) (hrefs W html))"
  using extract_links_from_map[of W b "hrefs W html" "[]" links]
  by (simp add: extract_links_def)

lemma discover_queue:
  assumes "extract_links W html url = Inr links"
    and "urlparse (host_ok W) base \<noteq> None"
    and "\<forall>l \<in> set links. urlparse (host_ok W) l \<noteq> None"
    and "raised st = None"
  shows "discover W A base st html url
         = st\<lparr>queue :=
               (let q = queue st @ filter (wanted W base (seen st)) links
                in if int (length q) > arg_max_pages A then slice_to (arg_max_pages A) q else q)\<rparr>"
  using assms(1,4)
  by (simp add: discover_def enqueue_links_filter[OF assms(2,3)] Let_def)

lemma crawl_body_queue:
  assumes "norm_url (host_ok W) entry = Some url" "url \<notin> seen st" "raised st = None"
    and "client_get W url = Inr r" "status_code r = 200" "is_html_response r"
    and "extract_links W (body_text r) url = Inr links"
    and "urlparse (host_ok W) base \<noteq> None"
    and "\<forall>l \<in> set links. urlparse (host_ok W) l \<noteq> None"
  shows "queue (crawl_body W L sha1 A base False st entry)
         = (let q = queue st @ filter (wanted W base (insert url (seen st))) links
            in if int (length q) > arg_max_pages A then slice_to (arg_max_pages A) q else q)"
proof -
  let ?st = "st\<lparr>seen := insert url (seen st), events := events st @ [Fetch url]\<rparr>"
  have d: "discover W A base ?st (body_text r) url
         = ?st\<lparr>queue :=
               (let q = queue ?st @ filter (wanted W base (seen ?st)) links
                in if int (length q) > arg_max_pages A then slice_to (arg_max_pages A) q else q)\<rparr>"
    by (rule discover_queue[OF assms(7,8,9)]) (simp add: assms(3))
  show ?thesis
    using assms(1-6)
    by (simp add: crawl_body_def Let_def d process_page_keeps)
qed


subsection \<open>C1: the greedy buffer\<close>

text \<open>
  Claim C1, as stated, speaks of every list of sections. It fails on sections whose text
  is not trimmed, because the buffer is stripped each time a section is appended. With
  \<open>minTokens = 3\<close>, the sections \<open>aaaa\<close>, \<open>b\<close> followed by seven spaces, and \<open>c\<close> give
  one passage, where the greedy buffer of the specification gives two: appending the
  second section leaves a stripped buffer of 7 characters (1 token), not of 14 (3 tokens).
  The example fails likewise: texts of 400 \<open>a\<close>, of \<open>b\<close> followed by 1599 spaces, and of
  2000 \<open>c\<close> have the token estimates 100, 400 and 500, and with \<open>minTokens = 250\<close>,
  \<open>maxTokens = 900\<close> they give one passage of all three, not two passages.
\<close>

theorem chunk_sections_untrimmed_counterexample:
  "(map chunk_text
      (chunk_sections (\<lambda>s. s) [('''', ''aaaa''), ('''', ''b       ''), ('''', ''c'')]
         ''u'' ''t'' ''s'' 3 900)
    = [''aaaa'' @ [NL, NL] @ ''b'' @ [NL, NL] @ ''c'']
    \<and> map chunk_text
      (greedy (\<lambda>s. s) ''u'' ''t'' ''s'' 3 900 [] []
         [('''', ''aaaa''), ('''', ''b       ''), ('''', ''c'')])
    = [''aaaa'' @ [NL, NL] @ ''b'', ''c''])
   \<and> (map approx_tokens [replicate 400 CHR ''a'', CHR ''b'' # replicate 1599 CHR '' '',
                          replicate 2000 CHR ''c''] = [100, 400, 500]
    \<and> map chunk_text
       (chunk_sections (\<lambda>s. s)
          [(''A'', replicate 400 CHR ''a''), (''B'', CHR ''b'' # replicate 1599 CHR '' ''),
           (''C'', replicate 2000 CHR ''c'')] ''u'' ''T'' ''docs'' 250 900)
     = [replicate 400 CHR ''a'' @ [NL, NL] @ ''b'' @ [NL, NL] @ replicate 2000 CHR ''c''])"
proof -
  have small: "map chunk_text
      (chunk_sections (\<lambda>s. s) [('''', ''aaaa''), ('''', ''b       ''), ('''', ''c'')]
         ''u'' ''t'' ''s'' 3 900)
    = [''aaaa'' @ [NL, NL] @ ''b'' @ [NL, NL] @ ''c'']
    \<and> map chunk_text
      (greedy (\<lambda>s. s) ''u'' ''t'' ''s'' 3 900 [] []
         [('''', ''aaaa''), ('''', ''b       ''), ('''', ''c'')])
    = [''aaaa'' @ [NL, NL] @ ''b'', ''c'']"
    by code_simp
  show ?thesis by (rule conjI[OF small headline_untrimmed])
qed

text \<open>
  Claim C1, amended: on every list of sections whose texts are trimmed and not empty (as
  the Section Splitter returns them) \<open>chunk_sections\<close> computes the greedy buffer of the
  specification: an empty buffer is seeded with the section and its path; otherwise, if
  the tokens of the buffer plus the tokens of the section exceed \<open>maxTokens\<close>, the buffer
  is flushed and the section seeds a new buffer, else the section is appended after a
  blank line and the first non-empty path is kept; after such a step a buffer of at least
  \<open>minTokens\<close> tokens is flushed and reset; after the last section a remaining non-empty
  buffer is flushed. In particular three such sections of 100, 400 and 500 tokens give,
  with \<open>minTokens = 250\<close> and \<open>maxTokens = 900\<close>, exactly two passages: sections 1 and 2
  together, then section 3.
\<close>

theorem chunk_sections_greedy:
  assumes "\<forall>hs \<in> set sections. is_section hs"
  shows "chunk_sections sha1 sections url title source min_tok max_tok
           = greedy sha1 url title source min_tok max_tok [] [] sections
         \<and> (sections = [(h1, s1), (h2, s2), (h3, s3)] \<and>
            map approx_tokens [s1, s2, s3] = [100, 400, 500] \<and>
            min_tok = 250 \<and> max_tok = 900 \<longrightarrow>
            map chunk_text (chunk_sections sha1 sections url title source min_tok max_tok)
              = [s1 @ [NL, NL] @ s2, s3])"
proof (intro conjI impI)
  show "chunk_sections sha1 sections url title source min_tok max_tok
          = greedy sha1 url title source min_tok max_tok [] [] sections"
    using assms by (rule chunk_sections_greedy_eq)
next
  assume ex: "sections = [(h1, s1), (h2, s2), (h3, s3)] \<and>
              map approx_tokens [s1, s2, s3] = [100, 400, 500] \<and>
              min_tok = 250 \<and> max_tok = 900"
  have tr: "trimmed s1" "trimmed s2" "trimmed s3"
    using assms ex by (simp_all add: is_section_def)
  have tok: "approx_tokens s1 = 100" "approx_tokens s2 = 400" "approx_tokens s3 = 500"
    using ex by simp_all
  show "map chunk_text (chunk_sections sha1 sections url title source min_tok max_tok)
          = [s1 @ [NL, NL] @ s2, s3]"
    using example_100_400_500[OF tr tok] ex by simp
qed

theorem chunk_sections_greedy_witness:
  "list_all is_section [(''A'', replicate 400 CHR ''a''), (''B'', replicate 1600 CHR ''b''),
                        (''C'', replicate 2000 CHR ''c'')]
   \<and> map approx_tokens [replicate 400 CHR ''a'', replicate 1600 CHR ''b'',
                         replicate 2000 CHR ''c''] = [100, 400, 500]
   \<and> map chunk_text
        (chunk_sections (\<lambda>s. s)
           [(''A'', replicate 400 CHR ''a''), (''B'', replicate 1600 CHR ''b''),
            (''C'', replicate 2000 CHR ''c'')] ''u'' ''T'' ''docs'' 250 900)
     = [replicate 400 CHR ''a'' @ [NL, NL] @ replicate 1600 CHR ''b'',
        replicate 2000 CHR ''c'']"
proof -
  have h: "\<forall>hs \<in> set [(''A'', replicate 400 CHR ''a''), (''B'', replicate 1600 CHR ''b''),
                       (''C'', replicate 2000 CHR ''c'')]. is_section hs"
    by (simp add: is_section_def trimmed_iff isspace_def)
  have t: "map approx_tokens [replicate 400 CHR ''a'', replicate 1600 CHR ''b'',
                              replicate 2000 CHR ''c''] = [100, 400, 500]"
    by (simp add: approx_tokens_def)
  have e: "[(''A'', replicate 400 CHR ''a''), (''B'', replicate 1600 CHR ''b''),
             (''C'', replicate 2000 CHR ''c'')]
            = [(''A'', replicate 400 CHR ''a''), (''B'', replicate 1600 CHR ''b''),
               (''C'', replicate 2000 CHR ''c'')] \<and>
           map approx_tokens [replicate 400 CHR ''a'', replicate 1600 CHR ''b'',
                              replicate 2000 CHR ''c''] = [100, 400, 500] \<and>
           (250::int) = 250 \<and> (900::int) = 900 \<longrightarrow>
           map chunk_text
             (chunk_sections (\<lambda>s. s)
                [(''A'', replicate 400 CHR ''a''), (''B'', replicate 1600 CHR ''b''),
                 (''C'', replicate 2000 CHR ''c'')] ''u'' ''T'' ''docs'' 250 900)
           = [replicate 400 CHR ''a'' @ [NL, NL] @ replicate 1600 CHR ''b'',
              replicate 2000 CHR ''c'']"
    using chunk_sections_greedy[OF h, of "\<lambda>s. s" "''u''" "''T''" "''docs''" 250 900
        "''A''" "replicate 400 CHR ''a''" "''B''" "replicate 1600 CHR ''b''"
        "''C''" "replicate 2000 CHR ''c''"]
    by (rule conjunct2)
  have r: "map chunk_text
             (chunk_sections (\<lambda>s. s)
                [(''A'', replicate 400 CHR ''a''), (''B'', replicate 1600 CHR ''b''),
                 (''C'', replicate 2000 CHR ''c'')] ''u'' ''T'' ''docs'' 250 900)
           = [replicate 400 CHR ''a'' @ [NL, NL] @ replicate 1600 CHR ''b'',
              replicate 2000 CHR ''c'']"
    by (rule mp[OF e]) (intro conjI refl t)
  show ?thesis
    using h t r by (simp only: list_all_iff)
qed

subsection \<open>C5: the passage id\<close>

text \<open>
  Claim C5. Every passage that \<open>chunk_sections\<close> emits has as id the first 16 characters
  of the SHA-1 hex digest of the origin url, a newline and the passage's text, and that
  text is trimmed (and not empty). The id is a function of the pair (url, trimmed text):
  two passages of the same url with the same text have the same id, whatever the
  sections, title, source label and thresholds of the runs that emitted them.
\<close>

theorem passage_id_pure:
  "(\<forall>c \<in> set (chunk_sections sha1 sections url title source min_tok max_tok).
      chunk_id c = take 16 (sha1 (url @ [NL] @ chunk_text c)) \<and>
      strip (chunk_text c) = chunk_text c \<and> chunk_text c \<noteq> [])
   \<and> (\<forall>c \<in> set (chunk_sections sha1 sections url title source min_tok max_tok).
       \<forall>c' \<in> set (chunk_sections sha1 sections' url title' source' min_tok' max_tok').
         chunk_text c = chunk_text c' \<longrightarrow> chunk_id c = chunk_id c')"
  using chunk_sections_id_ok[of sha1 sections url title source min_tok max_tok]
    chunk_sections_id_ok[of sha1 sections' url title' source' min_tok' max_tok']
  by (simp add: id_ok_def trimmed_def)

theorem passage_id_pure_witness:
  "chunk_sections (\<lambda>s. s) [(''H'', ''# H'')] ''u'' ''T'' ''docs'' 250 900
     = [\<lparr>chunk_id = ''u'' @ [NL] @ ''# H'', chunk_text = ''# H'',
         chunk_metadata = \<lparr>meta_source = ''docs'', meta_url = ''u'', meta_title = ''T'',
                           meta_section_path = ''T > H''\<rparr>\<rparr>]
   \<and> chunk_sections (\<lambda>s. s) [('''', ''# H'')] ''u'' '''' ''other'' 1 2
     = [\<lparr>chunk_id = ''u'' @ [NL] @ ''# H'', chunk_text = ''# H'',
         chunk_metadata = \<lparr>meta_source = ''other'', meta_url = ''u'', meta_title = '''',
                           meta_section_path = ''''\<rparr>\<rparr>]
   \<and> chunk_id (hd (chunk_sections (\<lambda>s. s) [(''H'', ''# H'')] ''u'' ''T'' ''docs'' 250 900))
     = chunk_id (hd (chunk_sections (\<lambda>s. s) [('''', ''# H'')] ''u'' '''' ''other'' 1 2))"
proof -
  have a: "chunk_sections (\<lambda>s. s) [(''H'', ''# H'')] ''u'' ''T'' ''docs'' 250 900
     = [\<lparr>chunk_id = ''u'' @ [NL] @ ''# H'', chunk_text = ''# H'',
         chunk_metadata = \<lparr>meta_source = ''docs'', meta_url = ''u'', meta_title = ''T'',
                           meta_section_path = ''T > H''\<rparr>\<rparr>]"
    by (simp add: chunk_sections_def chunk_step_def flush_def strip_def lstrip_def rstrip_def
        isspace_def approx_tokens_def NL_def Let_def)
  have b: "chunk_sections (\<lambda>s. s) [('''', ''# H'')] ''u'' '''' ''other'' 1 2
     = [\<lparr>chunk_id = ''u'' @ [NL] @ ''# H'', chunk_text = ''# H'',
         chunk_metadata = \<lparr>meta_source = ''other'', meta_url = ''u'', meta_title = '''',
                           meta_section_path = ''''\<rparr>\<rparr>]"
    by (simp add: chunk_sections_def chunk_step_def flush_def strip_def lstrip_def rstrip_def
        isspace_def approx_tokens_def NL_def Let_def)
  have c: "chunk_id (hd (chunk_sections (\<lambda>s. s) [(''H'', ''# H'')] ''u'' ''T'' ''docs'' 250 900))
     = chunk_id (hd (chunk_sections (\<lambda>s. s) [('''', ''# H'')] ''u'' '''' ''other'' 1 2))"
    using passage_id_pure[of "\<lambda>s. s" "[(''H'', ''# H'')]" "''u''" "''T''" "''docs''" 250 900
        "[('''', ''# H'')]" "''''" "''other''" 1 2]
    unfolding a b by simp
  show ?thesis using a b c by blast
qed

subsection \<open>C9: sections below the minimum\<close>

text \<open>
  Claim C9, as stated: a non-empty list of sections whose token estimates sum to less than
  \<open>minTokens\<close> gives exactly one passage. It fails: three sections of seven characters
  count one token each, three in all, but the buffer holding the first two (sixteen
  characters with the blank line) counts four tokens, so with \<open>minTokens = 4\<close> it is
  flushed and the third section becomes a second passage.
\<close>

theorem chunk_sections_sum_below_min_counterexample:
  "[('''', ''aaaaaaa''), ('''', ''bbbbbbb''), ('''', ''ccccccc'')] \<noteq> []
   \<and> list_all is_section [('''', ''aaaaaaa''), ('''', ''bbbbbbb''), ('''', ''ccccccc'')]
   \<and> sum_list (map (\<lambda>hs. approx_tokens (snd hs))
        [('''', ''aaaaaaa''), ('''', ''bbbbbbb''), ('''', ''ccccccc'')]) < 4
   \<and> map chunk_text
        (chunk_sections (\<lambda>s. s)
           [('''', ''aaaaaaa''), ('''', ''bbbbbbb''), ('''', ''ccccccc'')]
           ''u'' ''t'' ''s'' 4 900)
     = [''aaaaaaa'' @ [NL, NL] @ ''bbbbbbb'', ''ccccccc'']"
  by (simp add: chunk_sections_def chunk_step_def flush_def strip_def lstrip_def rstrip_def
      isspace_def approx_tokens_def NL_def Let_def is_section_def trimmed_def)

text \<open>
  Claim C9, amended: for every non-empty list of sections (trimmed, non-empty texts), if
  the token estimate of the texts of all the sections joined by blank lines is below
  \<open>minTokens\<close>, and \<open>minTokens\<close> is at most \<open>maxTokens\<close>, then exactly one passage is
  emitted, and its text is all the sections joined by blank lines.
\<close>

theorem chunk_sections_single_passage:
  assumes "sections \<noteq> []" and "\<forall>hs \<in> set sections. is_section hs"
    and "approx_tokens (join [NL, NL] (map snd sections)) < min_tok"
    and "min_tok \<le> max_tok"
  shows "map chunk_text (chunk_sections sha1 sections url title source min_tok max_tok)
         = [join [NL, NL] (map snd sections)]"
  using assms by (rule one_passage)

theorem chunk_sections_single_passage_witness:
  "[('''', ''aaaaaaa''), (''B'', ''# B''), ('''', ''ccccccc'')] \<noteq> []
   \<and> list_all is_section [('''', ''aaaaaaa''), (''B'', ''# B''), ('''', ''ccccccc'')]
   \<and> approx_tokens (join [NL, NL]
        (map snd [('''', ''aaaaaaa''), (''B'', ''# B''), ('''', ''ccccccc'')])) < 250
   \<and> (250::int) \<le> 900
   \<and> map chunk_text
        (chunk_sections (\<lambda>s. s)
           [('''', ''aaaaaaa''), (''B'', ''# B''), ('''', ''ccccccc'')]
           ''u'' ''t'' ''s'' 250 900)
     = [''aaaaaaa'' @ [NL, NL] @ ''# B'' @ [NL, NL] @ ''ccccccc'']"
proof -
  have h1: "[('''', ''aaaaaaa''), (''B'', ''# B''), ('''', ''ccccccc'')] \<noteq> []" by simp
  have h2: "\<forall>hs \<in> set [('''', ''aaaaaaa''), (''B'', ''# B''), ('''', ''ccccccc'')]. is_section hs"
    by (simp add: is_section_def trimmed_iff isspace_def)
  have h3: "approx_tokens (join [NL, NL]
        (map snd [('''', ''aaaaaaa''), (''B'', ''# B''), ('''', ''ccccccc'')])) < 250"
    by (simp add: approx_tokens_def)
  have h4: "(250::int) \<le> 900" by simp
  show ?thesis
    using h1 h2 h3 h4
      chunk_sections_single_passage[OF h1 h2 h3 h4, of "\<lambda>s. s" "''u''" "''t''" "''s''"]
    by (simp add: list_all_iff)
qed

subsection \<open>C3: the sections of a body text\<close>

text \<open>
  Claim C3, as stated: the lines of a section are retained verbatim in its text, and the
  heading lines are those of 1 to 6 markers followed by a space and text. Both fail. The
  text of a section is trimmed: the body \<open># H\<close> followed by two spaces gives the text
  \<open># H\<close>, which is not the heading line. And any whitespace character after the markers
  makes a heading line: after the line \<open>a\<close>, the line of \<open>#\<close>, a tab and \<open>b\<close> opens a
  section of its own with heading \<open>b\<close> and is not kept in the preface.
\<close>

theorem split_by_headings_verbatim_counterexample:
  "split_by_headings ''# H  '' = [(''H'', ''# H'')]
   \<and> ''# H'' \<noteq> ''# H  ''
   \<and> split_by_headings (''a'' @ [NL] @ ''#'' @ [CHR 0x09] @ ''b'')
     = [('''', ''a''), (''b'', ''#'' @ [CHR 0x09] @ ''b'')]"
  by code_simp

text \<open>
  Claim C3, amended: for every body text \<open>split_by_headings\<close> returns the sections in
  document order. A line of 1 to 6 marker characters followed by a whitespace character
  (so also one followed by a space and text) starts a new section, whose heading is the
  trimmed remainder after the markers; the section holds that heading line and every
  line up to, not including, the next heading line; the lines before the first heading
  line form a section with empty heading; the text of a section is its lines, joined by
  newlines, trimmed at both ends; the sections whose text is then empty are dropped.
\<close>

theorem split_by_headings_sections:
  "split_by_headings markdown = spec_sections (splitlines markdown)
   \<and> (1 \<le> k \<and> k \<le> 6 \<longrightarrow>
        heading_line (replicate k CHR ''#'' @ CHR '' '' # txt) \<and>
        heading_text (replicate k CHR ''#'' @ CHR '' '' # txt) = strip txt)"
  using split_by_headings_spec heading_line_hash_space by blast

theorem split_by_headings_sections_witness:
  "split_by_headings
     (''intro'' @ [NL] @ ''# A'' @ [NL] @ ''x'' @ [NL] @ [NL] @ ''## B c '' @ [NL] @ ''y'' @ [CR, NL])
     = [('''', ''intro''), (''A'', ''# A'' @ [NL] @ ''x''), (''B c'', ''## B c '' @ [NL] @ ''y'')]
   \<and> spec_sections (splitlines
       (''intro'' @ [NL] @ ''# A'' @ [NL] @ ''x'' @ [NL] @ [NL] @ ''## B c '' @ [NL] @ ''y'' @ [CR, NL]))
     = [('''', ''intro''), (''A'', ''# A'' @ [NL] @ ''x''), (''B c'', ''## B c '' @ [NL] @ ''y'')]
   \<and> (1::nat) \<le> 2 \<and> (2::nat) \<le> 6
   \<and> heading_line (replicate 2 CHR ''#'' @ CHR '' '' # ''B c '')
   \<and> heading_text (replicate 2 CHR ''#'' @ CHR '' '' # ''B c '') = strip ''B c ''"
proof -
  have a: "split_by_headings
     (''intro'' @ [NL] @ ''# A'' @ [NL] @ ''x'' @ [NL] @ [NL] @ ''## B c '' @ [NL] @ ''y'' @ [CR, NL])
     = [('''', ''intro''), (''A'', ''# A'' @ [NL] @ ''x''), (''B c'', ''## B c '' @ [NL] @ ''y'')]"
    by code_simp
  have k: "(1::nat) \<le> 2 \<and> (2::nat) \<le> 6" by simp
  note t = split_by_headings_sections[of
      "''intro'' @ [NL] @ ''# A'' @ [NL] @ ''x'' @ [NL] @ [NL] @ ''## B c '' @ [NL] @ ''y'' @ [CR, NL]"
      2 "''B c ''"]
  show ?thesis using a k t by simp
qed

subsection \<open>C4: the fallback of the extractor\<close>

text \<open>
  Claim C4. \<open>extract_main_markdown\<close> returns the heuristic extractor's converted text when
  that text has at least 200 characters; exactly when it is shorter, it returns the text
  re-derived from the original full HTML, from the first that exists of the wiki
  main-content container, the wiki parser-output container, a \<open>main\<close> element and the
  body (and the heuristic text when there is none). The title is in both cases the
  heuristic extractor's title, trimmed (empty when it has none).
\<close>

theorem extract_main_markdown_fallback:
  "fst (extract_main_markdown L html)
     = strip (case short_title L html of None \<Rightarrow> [] | Some t \<Rightarrow> t)
   \<and> (\<not> int (length (heuristic_text L html)) < 200 \<longrightarrow>
        snd (extract_main_markdown L html) = heuristic_text L html)
   \<and> (int (length (heuristic_text L html)) < 200 \<longrightarrow>
        snd (extract_main_markdown L html)
          = (case fallback_container L html of
               Some m \<Rightarrow> fallback_text L m
             | None \<Rightarrow> heuristic_text L html))"
  by (simp add: extract_main_markdown_paths)

theorem extract_main_markdown_fallback_witness:
  "int (length (heuristic_text (stub_libs ''<p>x</p>'') ''<html/>'')) < 200
   \<and> extract_main_markdown (stub_libs ''<p>x</p>'') ''<html/>'' = (''T'', ''<main>all</main>'')
   \<and> \<not> int (length (heuristic_text (stub_libs (replicate 200 CHR ''a'')) ''<html/>'')) < 200
   \<and> extract_main_markdown (stub_libs (replicate 200 CHR ''a'')) ''<html/>''
     = (''T'', replicate 200 CHR ''a'')"
proof -
  have tr: "strip (collapse_newlines (replicate 200 CHR ''a'')) = replicate 200 CHR ''a''"
  proof -
    have "\<not> has_blank_run (replicate 200 CHR ''a'')"
      by (rule no_newline_no_run) (simp add: NL_def)
    then have "collapse_newlines (replicate 200 CHR ''a'') = replicate 200 CHR ''a''"
      by (rule collapse_fix)
    then show ?thesis by (simp add: strip_eq_self_iff isspace_def)
  qed
  have h1: "heuristic_text (stub_libs ''<p>x</p>'') ''<html/>'' = ''<p>x</p>''"
    by (simp add: heuristic_text_def stub_libs_def strip_def lstrip_def rstrip_def isspace_def NL_def)
  have h2: "heuristic_text (stub_libs (replicate 200 CHR ''a'')) ''<html/>'' = replicate 200 CHR ''a''"
    using tr by (simp add: heuristic_text_def stub_libs_def)
  have f: "fallback_container (stub_libs ''<p>x</p>'') ''<html/>'' = Some ''<main>all</main>''"
    by (simp add: fallback_container_def stub_libs_def)
  have ft: "fallback_text (stub_libs ''<p>x</p>'') ''<main>all</main>'' = ''<main>all</main>''"
    by (simp add: fallback_text_def stub_libs_def strip_def lstrip_def rstrip_def isspace_def NL_def)
  have t: "strip '' T '' = ''T''"
    by (simp add: strip_def lstrip_def rstrip_def isspace_def)
  note a = extract_main_markdown_fallback[of "stub_libs ''<p>x</p>''" "''<html/>''"]
  note b = extract_main_markdown_fallback[of "stub_libs (replicate 200 CHR ''a'')" "''<html/>''"]
  have s1: "short_title (stub_libs x) y = Some '' T ''" for x y
    by (simp add: stub_libs_def)
  have l1: "int (length (heuristic_text (stub_libs ''<p>x</p>'') ''<html/>'')) < 200"
    by (simp add: h1)
  have l2: "\<not> int (length (heuristic_text (stub_libs (replicate 200 CHR ''a'')) ''<html/>'')) < 200"
    by (simp add: h2)
  have r1: "extract_main_markdown (stub_libs ''<p>x</p>'') ''<html/>'' = (''T'', ''<main>all</main>'')"
    using a l1 by (simp add: prod_eq_iff s1 t f ft)
  have r2: "extract_main_markdown (stub_libs (replicate 200 CHR ''a'')) ''<html/>''
     = (''T'', replicate 200 CHR ''a'')"
    using b l2 by (simp add: prod_eq_iff s1 t h2)
  show ?thesis using l1 l2 r1 r2 by blast
qed

subsection \<open>C2: the sitemap strategy\<close>

text \<open>
  Claim C2, as stated: for a sitemap index the result is the union of the \<open>loc\<close> entries of
  all the children, and the strategy stops at the first usable document. Both fail. A
  child that answers with a status other than 200 contributes nothing, whatever its
  document holds: with the second child answering 203, its two URLs are missing from the
  result. And a usable document that is neither an index nor a urlset does not stop the
  strategy: the next candidate location is tried and its URLs are returned.
\<close>

theorem try_fetch_sitemap_children_counterexample:
  "client_get (index_site 203) ''http://h/s2.xml'' = Inr (xml_page 203 ''<urlset>2'')
   \<and> xml_locs (index_site 203) ''<urlset>2'' = [''http://h/d'', ''http://h/b'']
   \<and> try_fetch_sitemap (index_site 203) ''http://h/''
       = Inr [''http://h/a'', ''http://h/c'', ''http://h/e'']
   \<and> client_get feed_site ''http://h/sitemap.xml'' = Inr (xml_page 200 ''<rss>'')
   \<and> usable (xml_page 200 ''<rss>'')
   \<and> try_fetch_sitemap feed_site ''http://h/'' = Inr [''http://h/a'', ''http://h/b'']"
  by code_simp

text \<open>
  Claim C2, amended: when no fetch fails in transport, \<open>try_fetch_sitemap\<close> tries
  \<open>/sitemap.xml\<close> then \<open>/sitemap_index.xml\<close>, treats a response as usable only if its
  status is 200 and its content type contains \<open>xml\<close>, and stops at the first usable
  document that is a sitemap index or a urlset. For an index it fetches every child and
  returns the union of the \<open>loc\<close> entries of the children that answer with status 200,
  deduplicated and sorted; for a urlset it returns the document's own \<open>loc\<close> entries,
  deduplicated and sorted; when neither location gives such a document it returns the
  empty list. In particular an index of two children that answer 200, with disjoint
  sets of 3 and 2 URLs, gives exactly 5 URLs, distinct and sorted.
\<close>

theorem try_fetch_sitemap_urls:
  assumes "\<forall>u. \<exists>r. client_get W u = Inr r"
    and "urljoin W base ''/sitemap.xml'' = Some c1"
    and "urljoin W base ''/sitemap_index.xml'' = Some c2"
    and "client_get W c1 = Inr r1" and "client_get W c2 = Inr r2"
  shows "try_fetch_sitemap W base =
           Inr (if is_sitemap W r1 then document_urls W (body_text r1)
                else if is_sitemap W r2 then document_urls W (body_text r2)
                else [])
         \<and> (is_sitemap W r1 \<and> xml_find W ''sitemapindex'' (body_text r1) \<and>
            xml_locs W (body_text r1) = [a, b] \<and>
            client_get W a = Inr ra \<and> status_code ra = 200 \<and>
            client_get W b = Inr rb \<and> status_code rb = 200 \<and>
            card (set (xml_locs W (body_text ra))) = 3 \<and>
            card (set (xml_locs W (body_text rb))) = 2 \<and>
            set (xml_locs W (body_text ra)) \<inter> set (xml_locs W (body_text rb)) = {} \<longrightarrow>
            (\<exists>urls. try_fetch_sitemap W base = Inr urls \<and> length urls = 5 \<and>
                    distinct urls \<and> sorted urls \<and>
                    set urls = set (xml_locs W (body_text ra)) \<union> set (xml_locs W (body_text rb))))"
proof -
  have t: "try_fetch_sitemap W base =
           Inr (if is_sitemap W r1 then document_urls W (body_text r1)
                else if is_sitemap W r2 then document_urls W (body_text r2)
                else [])"
    using try_candidates_two[OF assms(1,4,5)] assms(2,3)
    by (simp add: try_fetch_sitemap_def)
  show ?thesis
  proof (intro conjI impI)
    show "try_fetch_sitemap W base =
           Inr (if is_sitemap W r1 then document_urls W (body_text r1)
                else if is_sitemap W r2 then document_urls W (body_text r2)
                else [])" by (rule t)
  next
    assume h: "is_sitemap W r1 \<and> xml_find W ''sitemapindex'' (body_text r1) \<and>
            xml_locs W (body_text r1) = [a, b] \<and>
            client_get W a = Inr ra \<and> status_code ra = 200 \<and>
            client_get W b = Inr rb \<and> status_code rb = 200 \<and>
            card (set (xml_locs W (body_text ra))) = 3 \<and>
            card (set (xml_locs W (body_text rb))) = 2 \<and>
            set (xml_locs W (body_text ra)) \<inter> set (xml_locs W (body_text rb)) = {}"
    have "length (document_urls W (body_text r1)) = 5 \<and> distinct (document_urls W (body_text r1)) \<and>
         sorted (document_urls W (body_text r1)) \<and>
         set (document_urls W (body_text r1))
           = set (xml_locs W (body_text ra)) \<union> set (xml_locs W (body_text rb))"
      using h index_two_children[OF assms(1), of "body_text r1" a b ra rb] by blast
    then show "\<exists>urls. try_fetch_sitemap W base = Inr urls \<and> length urls = 5 \<and>
                    distinct urls \<and> sorted urls \<and>
                    set urls = set (xml_locs W (body_text ra)) \<union> set (xml_locs W (body_text rb))"
      using t h by simp
  qed
qed

theorem try_fetch_sitemap_urls_witness:
  "(\<forall>u. \<exists>r. client_get (index_site 200) u = Inr r)
   \<and> urljoin (index_site 200) ''http://h/'' ''/sitemap.xml'' = Some ''http://h/sitemap.xml''
   \<and> urljoin (index_site 200) ''http://h/'' ''/sitemap_index.xml'' = Some ''http://h/sitemap_index.xml''
   \<and> client_get (index_site 200) ''http://h/sitemap.xml'' = Inr (xml_page 200 ''<sitemapindex>'')
   \<and> client_get (index_site 200) ''http://h/sitemap_index.xml'' = Inr not_found
   \<and> is_sitemap (index_site 200) (xml_page 200 ''<sitemapindex>'')
   \<and> xml_find (index_site 200) ''sitemapindex'' (body_text (xml_page 200 ''<sitemapindex>''))
   \<and> xml_locs (index_site 200) (body_text (xml_page 200 ''<sitemapindex>''))
       = [''http://h/s1.xml'', ''http://h/s2.xml'']
   \<and> client_get (index_site 200) ''http://h/s1.xml'' = Inr (xml_page 200 ''<urlset>1'')
   \<and> status_code (xml_page 200 ''<urlset>1'') = 200
   \<and> client_get (index_site 200) ''http://h/s2.xml'' = Inr (xml_page 200 ''<urlset>2'')
   \<and> status_code (xml_page 200 ''<urlset>2'') = 200
   \<and> card (set (xml_locs (index_site 200) (body_text (xml_page 200 ''<urlset>1'')))) = 3
   \<and> card (set (xml_locs (index_site 200) (body_text (xml_page 200 ''<urlset>2'')))) = 2
   \<and> set (xml_locs (index_site 200) (body_text (xml_page 200 ''<urlset>1'')))
       \<inter> set (xml_locs (index_site 200) (body_text (xml_page 200 ''<urlset>2''))) = {}
   \<and> try_fetch_sitemap (index_site 200) ''http://h/''
       = Inr [''http://h/a'', ''http://h/b'', ''http://h/c'', ''http://h/d'', ''http://h/e'']
   \<and> (\<exists>urls. try_fetch_sitemap (index_site 200) ''http://h/'' = Inr urls \<and> length urls = 5 \<and>
              distinct urls \<and> sorted urls \<and>
              set urls = set (xml_locs (index_site 200) (body_text (xml_page 200 ''<urlset>1'')))
                       \<union> set (xml_locs (index_site 200) (body_text (xml_page 200 ''<urlset>2''))))"
proof -
  have ok: "\<forall>u. \<exists>r. client_get (index_site 200) u = Inr r"
    by (simp add: index_site_def stub_web_def split: option.splits)
  have j1: "urljoin (index_site 200) ''http://h/'' ''/sitemap.xml'' = Some ''http://h/sitemap.xml''"
    by (simp add: index_site_def stub_web_def)
  have j2: "urljoin (index_site 200) ''http://h/'' ''/sitemap_index.xml'' = Some ''http://h/sitemap_index.xml''"
    by (simp add: index_site_def stub_web_def)
  have g1: "client_get (index_site 200) ''http://h/sitemap.xml'' = Inr (xml_page 200 ''<sitemapindex>'')"
    by (simp add: index_site_def stub_web_def)
  have g2: "client_get (index_site 200) ''http://h/sitemap_index.xml'' = Inr not_found"
    by (simp add: index_site_def stub_web_def)
  have s: "is_sitemap (index_site 200) (xml_page 200 ''<sitemapindex>'')"
    by code_simp
  have i: "xml_find (index_site 200) ''sitemapindex'' (body_text (xml_page 200 ''<sitemapindex>''))"
    by code_simp
  have l: "xml_locs (index_site 200) (body_text (xml_page 200 ''<sitemapindex>''))
           = [''http://h/s1.xml'', ''http://h/s2.xml'']"
    by (simp add: index_site_def stub_web_def xml_page_def)
  have ga: "client_get (index_site 200) ''http://h/s1.xml'' = Inr (xml_page 200 ''<urlset>1'')"
    by (simp add: index_site_def stub_web_def)
  have gb: "client_get (index_site 200) ''http://h/s2.xml'' = Inr (xml_page 200 ''<urlset>2'')"
    by (simp add: index_site_def stub_web_def)
  have sa: "status_code (xml_page 200 ''<urlset>1'') = 200" by (simp add: xml_page_def)
  have sb: "status_code (xml_page 200 ''<urlset>2'') = 200" by (simp add: xml_page_def)
  have la: "xml_locs (index_site 200) (body_text (xml_page 200 ''<urlset>1''))
            = [''http://h/c'', ''http://h/a'', ''http://h/e'']"
    by (simp add: index_site_def stub_web_def xml_page_def)
  have lb: "xml_locs (index_site 200) (body_text (xml_page 200 ''<urlset>2''))
            = [''http://h/d'', ''http://h/b'']"
    by (simp add: index_site_def stub_web_def xml_page_def)
  have ca: "card (set (xml_locs (index_site 200) (body_text (xml_page 200 ''<urlset>1'')))) = 3"
    unfolding la by simp
  have cb: "card (set (xml_locs (index_site 200) (body_text (xml_page 200 ''<urlset>2'')))) = 2"
    unfolding lb by simp
  have dj: "set (xml_locs (index_site 200) (body_text (xml_page 200 ''<urlset>1'')))
       \<inter> set (xml_locs (index_site 200) (body_text (xml_page 200 ''<urlset>2''))) = {}"
    unfolding la lb by simp
  have r: "try_fetch_sitemap (index_site 200) ''http://h/''
       = Inr [''http://h/a'', ''http://h/b'', ''http://h/c'', ''http://h/d'', ''http://h/e'']"
    by code_simp
  note inst = try_fetch_sitemap_urls[OF ok j1 j2 g1 g2,
      of "''http://h/s1.xml''" "''http://h/s2.xml''" "xml_page 200 ''<urlset>1''"
         "xml_page 200 ''<urlset>2''"]
  have e: "\<exists>urls. try_fetch_sitemap (index_site 200) ''http://h/'' = Inr urls \<and> length urls = 5 \<and>
              distinct urls \<and> sorted urls \<and>
              set urls = set (xml_locs (index_site 200) (body_text (xml_page 200 ''<urlset>1'')))
                       \<union> set (xml_locs (index_site 200) (body_text (xml_page 200 ''<urlset>2'')))"
    by (rule mp[OF conjunct2[OF inst]]) (intro conjI s i l ga gb sa sb ca cb dj)
  show ?thesis
    by (intro conjI ok j1 j2 g1 g2 s i l ga gb sa sb ca cb dj r e)
qed

subsection \<open>C6: no URL is fetched twice\<close>

text \<open>
  Claim C6. In one run of the driver the loop fetches no normalized URL twice, and every
  fetched URL is in the visited set. An entry popped from the queue is normalized; when
  its URL is already in the visited set the iteration changes nothing; otherwise the URL
  is put into the visited set and fetched exactly once in that iteration. So a URL that
  is several times in the queue, or is found through several links, is fetched once.
\<close>

theorem fetched_once:
  "distinct (fetched (events (main W L sha1 A)))
   \<and> set (fetched (events (main W L sha1 A))) \<subseteq> seen (main W L sha1 A)
   \<and> (norm_url (host_ok W) entry = Some url \<and> url \<in> seen st \<longrightarrow>
        crawl_body W L sha1 A base from_sitemap st entry = st)
   \<and> (norm_url (host_ok W) entry = Some url \<and> url \<notin> seen st \<longrightarrow>
        url \<in> seen (crawl_body W L sha1 A base from_sitemap st entry) \<and>
        fetched (events (crawl_body W L sha1 A base from_sitemap st entry))
          = fetched (events st) @ [url])"
proof (intro conjI impI)
  show "distinct (fetched (events (main W L sha1 A)))"
    using main_inv[of W L sha1 A] by (simp add: fetch_inv_def)
  show "set (fetched (events (main W L sha1 A))) \<subseteq> seen (main W L sha1 A)"
    using main_inv[of W L sha1 A] by (simp add: fetch_inv_def)
next
  assume "norm_url (host_ok W) entry = Some url \<and> url \<in> seen st"
  then show "crawl_body W L sha1 A base from_sitemap st entry = st"
    by (simp add: crawl_body_def)
next
  assume h: "norm_url (host_ok W) entry = Some url \<and> url \<notin> seen st"
  then show "url \<in> seen (crawl_body W L sha1 A base from_sitemap st entry)"
    by (auto simp: crawl_body_def Let_def discover_keeps process_page_keeps split: sum.splits)
  show "fetched (events (crawl_body W L sha1 A base from_sitemap st entry))
          = fetched (events st) @ [url]"
    using h
    by (auto simp: crawl_body_def Let_def fetched_append discover_keeps process_page_keeps
          split: sum.splits)
qed

theorem fetched_once_witness:
  "queue (main seed_site (stub_libs ''x'') (\<lambda>s. s) default_args)
     = [''http://h/'', ''http://h/a'', ''http://h/a'']
   \<and> fetched (events (main seed_site (stub_libs ''x'') (\<lambda>s. s) default_args))
     = [''http://h/'', ''http://h/a'']
   \<and> distinct (fetched (events (main seed_site (stub_libs ''x'') (\<lambda>s. s) default_args)))
   \<and> norm_url (host_ok seed_site) ''http://h/a#top'' = Some ''http://h/a''
   \<and> ''http://h/a'' \<in> seen (start\<lparr>seen := {''http://h/a''}\<rparr>)
   \<and> crawl_body seed_site (stub_libs ''x'') (\<lambda>s. s) default_args ''http://h/'' False
        (start\<lparr>seen := {''http://h/a''}\<rparr>) ''http://h/a#top''
     = start\<lparr>seen := {''http://h/a''}\<rparr>
   \<and> ''http://h/a'' \<notin> seen start
   \<and> fetched (events (crawl_body seed_site (stub_libs ''x'') (\<lambda>s. s) default_args ''http://h/''
                          False start ''http://h/a#top''))
     = fetched (events start) @ [''http://h/a'']"
proof -
  have q: "queue (main seed_site (stub_libs ''x'') (\<lambda>s. s) default_args)
     = [''http://h/'', ''http://h/a'', ''http://h/a'']"
    by code_simp
  have f: "fetched (events (main seed_site (stub_libs ''x'') (\<lambda>s. s) default_args))
     = [''http://h/'', ''http://h/a'']"
    by code_simp
  have n: "norm_url (host_ok seed_site) ''http://h/a#top'' = Some ''http://h/a''"
    by code_simp
  have s1: "''http://h/a'' \<in> seen (start\<lparr>seen := {''http://h/a''}\<rparr>)" by simp
  have s2: "''http://h/a'' \<notin> seen start" by (simp add: start_def)
  note a = fetched_once[of seed_site "stub_libs ''x''" "\<lambda>s. s" default_args
      "''http://h/a#top''" "''http://h/a''" "start\<lparr>seen := {''http://h/a''}\<rparr>"
      "''http://h/''" False]
  note b = fetched_once[of seed_site "stub_libs ''x''" "\<lambda>s. s" default_args
      "''http://h/a#top''" "''http://h/a''" start "''http://h/''" False]
  have d: "distinct (fetched (events (main seed_site (stub_libs ''x'') (\<lambda>s. s) default_args)))"
    using a by (rule conjunct1)
  have c1: "crawl_body seed_site (stub_libs ''x'') (\<lambda>s. s) default_args ''http://h/'' False
        (start\<lparr>seen := {''http://h/a''}\<rparr>) ''http://h/a#top''
     = start\<lparr>seen := {''http://h/a''}\<rparr>"
    using a n s1 by blast
  have c2: "fetched (events (crawl_body seed_site (stub_libs ''x'') (\<lambda>s. s) default_args ''http://h/''
                          False start ''http://h/a#top''))
     = fetched (events start) @ [''http://h/a'']"
    using b n s2 by blast
  show ?thesis by (intro conjI q f d n s1 c1 s2 c2)
qed

subsection \<open>C7: the links that are enqueued\<close>

text \<open>
  Claim C7, as stated: a link is appended if and only if it is in scope, allowed, and
  neither visited nor already in the queue. It fails: the loop tests the visited set
  only. With \<open>http://h/a\<close> already in the queue and the home page linking twice to it,
  the link is appended twice more.
\<close>

theorem enqueue_already_queued_counterexample:
  "extract_links seed_site ''<home>'' ''http://h/''
     = Inr [''http://h/a'', ''http://h/a'', ''http://h/Special:Log'']
   \<and> ''http://h/a'' \<in> set (queue (start\<lparr>queue := [''http://h/'', ''http://h/a'']\<rparr>))
   \<and> queue (crawl_body seed_site (stub_libs ''x'') (\<lambda>s. s) default_args ''http://h/'' False
              (start\<lparr>queue := [''http://h/'', ''http://h/a'']\<rparr>) ''http://h/'')
     = [''http://h/'', ''http://h/a'', ''http://h/a'', ''http://h/a'']"
  by code_simp

text \<open>
  Claim C7, amended: under the seed strategy, after a page fetched with status 200 and an
  HTML content type, every non-empty hyperlink target of the page is joined to the page's
  URL and normalized, and (when all these URLs parse) each one is appended to the queue,
  in page order and once per occurrence, if and only if it is in scope, allowed by the
  path-exclusion rule and not in the visited set, whether or not the queue holds it
  already; the queue is then cut to the page cap.
\<close>

theorem crawl_body_enqueues:
  assumes "norm_url (host_ok W) entry = Some url" and "url \<notin> seen st" and "raised st = None"
    and "client_get W url = Inr r" and "status_code r = 200" and "is_html_response r"
    and "extract_links W (body_text r) url = Inr links"
    and "urlparse (host_ok W) base \<noteq> None"
    and "\<forall>l \<in> set links. urlparse (host_ok W) l \<noteq> None"
  shows "map Some links
           = map (\<lambda>h. Option.bind (urljoin W url h) (norm_url (host_ok W)))
               (filter (\<lambda>h. h \<noteq> []) (hrefs W (body_text r)))
         \<and> queue (crawl_body W L sha1 A base False st entry)
           = (let q = queue st @
                      filter (\<lambda>l. same_scope (host_ok W) l base = Some True \<and>
                                  keep_url (host_ok W) l = Some True \<and>
                                  l \<notin> insert url (seen st)) links
              in if int (length q) > arg_max_pages A then slice_to (arg_max_pages A) q else q)"
proof -
  have w: "wanted W base (insert url (seen st))
           = (\<lambda>l. same_scope (host_ok W) l base = Some True \<and>
                   keep_url (host_ok W) l = Some True \<and> l \<notin> insert url (seen st))"
    by (rule ext) (simp add: wanted_def)
  show ?thesis
    using extract_links_map[OF assms(7)] crawl_body_queue[OF assms, of L sha1 A]
    unfolding w by blast
qed

theorem crawl_body_enqueues_witness:
  "norm_url (host_ok seed_site) ''http://h/'' = Some ''http://h/''
   \<and> ''http://h/'' \<notin> seen (start\<lparr>queue := [''http://h/'']\<rparr>)
   \<and> raised (start\<lparr>queue := [''http://h/'']\<rparr>) = None
   \<and> client_get seed_site ''http://h/'' = Inr (html_page ''<home>'')
   \<and> status_code (html_page ''<home>'') = 200
   \<and> is_html_response (html_page ''<home>'')
   \<and> extract_links seed_site (body_text (html_page ''<home>'')) ''http://h/''
       = Inr [''http://h/a'', ''http://h/a'', ''http://h/Special:Log'']
   \<and> urlparse (host_ok seed_site) ''http://h/'' \<noteq> None
   \<and> list_all (\<lambda>l. urlparse (host_ok seed_site) l \<noteq> None)
        [''http://h/a'', ''http://h/a'', ''http://h/Special:Log'']
   \<and> queue (crawl_body seed_site (stub_libs ''x'') (\<lambda>s. s) default_args ''http://h/'' False
              (start\<lparr>queue := [''http://h/'']\<rparr>) ''http://h/'')
     = [''http://h/'', ''http://h/a'', ''http://h/a'']"
proof -
  have h1: "norm_url (host_ok seed_site) ''http://h/'' = Some ''http://h/''" by code_simp
  have h2: "''http://h/'' \<notin> seen (start\<lparr>queue := [''http://h/'']\<rparr>)" by (simp add: start_def)
  have h3: "raised (start\<lparr>queue := [''http://h/'']\<rparr>) = None" by (simp add: start_def)
  have h4: "client_get seed_site ''http://h/'' = Inr (html_page ''<home>'')"
    by (simp add: seed_site_def stub_web_def)
  have h5: "status_code (html_page ''<home>'') = 200" by (simp add: html_page_def)
  have h6: "is_html_response (html_page ''<home>'')" by code_simp
  have h7: "extract_links seed_site (body_text (html_page ''<home>'')) ''http://h/''
       = Inr [''http://h/a'', ''http://h/a'', ''http://h/Special:Log'']" by code_simp
  have h8: "urlparse (host_ok seed_site) ''http://h/'' \<noteq> None" by code_simp
  have l9: "list_all (\<lambda>l. urlparse (host_ok seed_site) l \<noteq> None)
        [''http://h/a'', ''http://h/a'', ''http://h/Special:Log'']" by code_simp
  have h9: "\<forall>l \<in> set [''http://h/a'', ''http://h/a'', ''http://h/Special:Log''].
              urlparse (host_ok seed_site) l \<noteq> None"
    using l9 by (simp only: list_all_iff)
  have r: "queue (crawl_body seed_site (stub_libs ''x'') (\<lambda>s. s) default_args ''http://h/'' False
              (start\<lparr>queue := [''http://h/'']\<rparr>) ''http://h/'')
     = [''http://h/'', ''http://h/a'', ''http://h/a'']" by code_simp
  note inst = crawl_body_enqueues[OF h1 h2 h3 h4 h5 h6 h7 h8 h9,
      of "stub_libs ''x''" "\<lambda>s. s" default_args]
  have "queue (crawl_body seed_site (stub_libs ''x'') (\<lambda>s. s) default_args ''http://h/'' False
              (start\<lparr>queue := [''http://h/'']\<rparr>) ''http://h/'')
     = [''http://h/'', ''http://h/a'', ''http://h/a'']"
    using inst r by simp
  then show ?thesis by (intro conjI h1 h2 h3 h4 h5 h6 h7 h8 l9)
qed

subsection \<open>C8: the delay after a fetch\<close>

text \<open>
  Claim C8 says that the driver waits the delay after every fetch attempt, also after a
  transport failure. The loop does not: its \<open>except\<close> branch continues without the
  \<open>sleep\<close> that the two other skip paths make. On a sitemap of two pages whose first fetch
  fails in transport, the second page is fetched at once.
\<close>

theorem no_delay_after_transport_failure:
  "client_get slow_site ''http://h/a'' = Inl TransportError
   \<and> events (main slow_site (stub_libs ''x'') (\<lambda>s. s) default_args)
     = [Fetch ''http://h/a'', Fetch ''http://h/b'', Sleep]"
  by code_simp

section \<open>Claims about the URL Normalizer\<close>

subsection \<open>C10: normalization is idempotent and drops the fragment\<close>

text \<open>
  Claim C10, as stated: for every parseable URL \<open>u\<close>, \<open>norm_url(norm_url(u))\<close> equals
  \<open>norm_url(u)\<close>. It fails where \<open>urlunsplit\<close> has its older first condition (CPython 3.12.3
  for one): \<open>/////a\<close> parses into an empty authority and the path \<open>///a\<close>, which is written
  back without the two slashes of the authority, so \<open>norm_url\<close> returns \<open>///a\<close>; that in turn
  parses into an empty authority and the path \<open>/a\<close>, and \<open>norm_url\<close> returns \<open>/a\<close>. The
  same happens behind a scheme that is not in \<open>uses_netloc\<close>: \<open>x://///a\<close> gives \<open>x:///a\<close>, and
  that gives \<open>x:/a\<close>.
\<close>

theorem norm_url_old_not_idempotent_counterexample:
  "norm_url_old (\<lambda>h. True) ''/////a'' = Some ''///a''
   \<and> norm_url_old (\<lambda>h. True) ''///a'' = Some ''/a''
   \<and> norm_url_old (\<lambda>h. True) ''x://///a'' = Some ''x:///a''
   \<and> norm_url_old (\<lambda>h. True) ''x:///a'' = Some ''x:/a''"
  by code_simp

text \<open>
  Claim C10, amended. With \<open>urlunsplit\<close> as CPython 3.11.10 has it (\<open>norm_url\<close> above),
  normalization is idempotent: whenever \<open>norm_url(u)\<close> returns \<open>s\<close>, that is for every \<open>u\<close> that
  \<open>urlparse\<close> accepts, \<open>norm_url(s)\<close> returns \<open>s\<close> again. With either \<open>urlunsplit\<close>, two
  URLs that \<open>urlparse\<close> accepts and whose components differ in the fragment only have the
  same normal form.
\<close>

theorem norm_url_idempotent:
  "(norm_url h u = Some s \<longrightarrow> norm_url h s = Some s)
   \<and> (urlparse h u = Some p \<and> urlparse h v = Some q \<and> p\<lparr>fragment := []\<rparr> = q\<lparr>fragment := []\<rparr>
        \<longrightarrow> norm_url h u = norm_url h v \<and> norm_url_old h u = norm_url_old h v)"
proof (intro conjI impI)
  assume "norm_url h u = Some s"
  then show "norm_url h s = Some s" by (rule norm_url_idem)
next
  assume a: "urlparse h u = Some p \<and> urlparse h v = Some q
      \<and> p\<lparr>fragment := []\<rparr> = q\<lparr>fragment := []\<rparr>"
  show "norm_url h u = norm_url h v"
    using a by (simp add: norm_url_fragment)
  show "norm_url_old h u = norm_url_old h v"
    using a by (simp add: norm_url_old_fragment)
qed

theorem norm_url_idempotent_witness:
  "norm_url (\<lambda>h. True) ''HTTP://Host/a;p?q#f'' = Some ''http://Host/a;p?q''
   \<and> norm_url (\<lambda>h. True) ''http://Host/a;p?q'' = Some ''http://Host/a;p?q''
   \<and> urlparse (\<lambda>h. True) ''HTTP://Host/a;p?q#f''
       = Some \<lparr>scheme = ''http'', netloc = ''Host'', path = ''/a'', params = ''p'',
                query = ''q'', fragment = ''f''\<rparr>
   \<and> urlparse (\<lambda>h. True) ''http://Host/a;p?q#other''
       = Some \<lparr>scheme = ''http'', netloc = ''Host'', path = ''/a'', params = ''p'',
                query = ''q'', fragment = ''other''\<rparr>
   \<and> norm_url (\<lambda>h. True) ''HTTP://Host/a;p?q#f''
       = norm_url (\<lambda>h. True) ''http://Host/a;p?q#other''
   \<and> norm_url_old (\<lambda>h. True) ''HTTP://Host/a;p?q#f''
       = norm_url_old (\<lambda>h. True) ''http://Host/a;p?q#other''
   \<and> norm_url (\<lambda>h. True) ''/////a'' = Some ''/////a''"
proof -
  have n: "norm_url (\<lambda>h. True) ''HTTP://Host/a;p?q#f'' = Some ''http://Host/a;p?q''"
    by code_simp
  have pu: "urlparse (\<lambda>h. True) ''HTTP://Host/a;p?q#f''
       = Some \<lparr>scheme = ''http'', netloc = ''Host'', path = ''/a'', params = ''p'',
                query = ''q'', fragment = ''f''\<rparr>"
    by code_simp
  have pv: "urlparse (\<lambda>h. True) ''http://Host/a;p?q#other''
       = Some \<lparr>scheme = ''http'', netloc = ''Host'', path = ''/a'', params = ''p'',
                query = ''q'', fragment = ''other''\<rparr>"
    by code_simp
  have m: "norm_url (\<lambda>h. True) ''/////a'' = Some ''/////a''"
    by code_simp
  note a = norm_url_idempotent[of "\<lambda>h. True" "''HTTP://Host/a;p?q#f''" "''http://Host/a;p?q''"
      "\<lparr>scheme = ''http'', netloc = ''Host'', path = ''/a'', params = ''p'',
        query = ''q'', fragment = ''f''\<rparr>"
      "''http://Host/a;p?q#other''"
      "\<lparr>scheme = ''http'', netloc = ''Host'', path = ''/a'', params = ''p'',
        query = ''q'', fragment = ''other''\<rparr>"]
  have i: "norm_url (\<lambda>h. True) ''http://Host/a;p?q'' = Some ''http://Host/a;p?q''"
    using a n by blast
  have e: "p\<lparr>fragment := []\<rparr> = q\<lparr>fragment := []\<rparr>"
    if "p = \<lparr>scheme = ''http'', netloc = ''Host'', path = ''/a'', params = ''p'',
             query = ''q'', fragment = ''f''\<rparr>"
       "q = \<lparr>scheme = ''http'', netloc = ''Host'', path = ''/a'', params = ''p'',
             query = ''q'', fragment = ''other''\<rparr>"
    for p q :: parse_result
    using that by simp
  have f: "norm_url (\<lambda>h. True) ''HTTP://Host/a;p?q#f''
             = norm_url (\<lambda>h. True) ''http://Host/a;p?q#other''
           \<and> norm_url_old (\<lambda>h. True) ''HTTP://Host/a;p?q#f''
             = norm_url_old (\<lambda>h. True) ''http://Host/a;p?q#other''"
    using a pu pv e[OF refl refl] by blast
  show ?thesis using n i pu pv f m by blast
qed

end
